theory Spec2Isabelle
  imports Main
begin

section \<open>Data model (common.ts)\<close>

text \<open>
  Addresses are strings. The source lower-cases an account address wherever it uses one
  as a key (\<^verbatim>\<open>getAccount\<close>, \<^verbatim>\<open>getVotes\<close>, the vote store); the model takes account
  addresses in that form. The \<^verbatim>\<open>validator\<close> field of a vote is not normalised:
  \<^verbatim>\<open>verifyVote\<close> lower-cases it for its two tests, while the deduplication of onVote and
  the quorum counts compare it with \<^verbatim>\<open>===\<close>. The model keeps the field as it was
  received and lower-cases it where the source does.
\<close>

type_synonym address = string

text \<open>\<^verbatim>\<open>String.prototype.toLowerCase\<close>, on the characters an address is written with.\<close>

definition toLowerCase :: "string \<Rightarrow> string" where
  "toLowerCase str =
     map (\<lambda>ch. if 65 \<le> (of_char ch :: nat) \<and> (of_char ch :: nat) \<le> 90
                then char_of ((of_char ch :: nat) + 32) else ch) str"

definition RECOVERY_CONTRACT :: address where
  "RECOVERY_CONTRACT = ''0x0000000000000000000000000000000000000100''"

text \<open>
  An ethers \<^verbatim>\<open>Transaction\<close>: \<^verbatim>\<open>from\<close> (null when the transaction carries no
  signature), \<^verbatim>\<open>to\<close> (null for a contract creation; the source writes \<^verbatim>\<open>tx.to!\<close>,
  which checks nothing at run time, so that \<^verbatim>\<open>toLowerCase()\<close> on it throws a TypeError),
  \<^verbatim>\<open>value\<close> (an unsigned integer), \<^verbatim>\<open>nonce\<close> and \<^verbatim>\<open>data\<close>. The field
  \<open>tx_envelope\<close> stands for the rest of the signed envelope (chain id, gas fields,
  signature bytes), which the core reads only through the hash.
  Serialised bytes are \<open>Empty\<close> (\<^verbatim>\<open>"0x"\<close> or absent), \<open>Garbage\<close> (bytes on which
  \<^verbatim>\<open>Transaction.from\<close> throws) or \<open>Serialized t\<close> (bytes that decode to \<open>t\<close>).
\<close>

datatype transaction =
  Transaction (tx_from: "address option") (tx_to: "address option") (tx_value: nat)
    (tx_nonce: int) (tx_data: bytes) (tx_envelope: nat)
and bytes = Empty | Garbage | Serialized transaction

text \<open>
  \<^verbatim>\<open>tx.hash\<close> is the hash of the signed serialisation, so it identifies the whole
  envelope: two envelopes of one payment are two payloads. The model takes the
  transaction value itself, envelope included, as its hash. ethers gives an unsigned
  transaction the hash null.
\<close>

type_synonym hash = transaction

definition tx_hash :: "transaction \<Rightarrow> hash option" where
  "tx_hash t = (if tx_from t = None then None else Some t)"

datatype error =
    BadSignature
  | Pending
  | NonceMismatch
  | NotFinalisedPrev
  | InsufficientBalance
  | MissingTip
  | TipUndecodable
  | TipSenderMismatch
  | TipNotNotarised
  | IntermediateNotBottom int
  | InvalidVote
  | DecodeError
  | TypeError
  | OutOfFuel

text \<open>\<^verbatim>\<open>Transaction.from(bytes)\<close>: throws on bytes that are no transaction.\<close>

fun Transaction_from :: "bytes \<Rightarrow> error + transaction" where
  "Transaction_from (Serialized t) = Inr t"
| "Transaction_from Garbage = Inl DecodeError"
| "Transaction_from Empty = Inl DecodeError"

record AccountState =
  balance :: int
  nonce :: int
  pending :: bool
  finalised :: int

text \<open>
  A vote. \<open>serializedTx = None\<close> is the bottom vote. The field \<open>signature\<close> holds the
  address that \<^verbatim>\<open>verifyMessage\<close> recovers from the signature over the vote's digest
  \<^verbatim>\<open>(account, nonce, hash-or-zero)\<close>.
\<close>

record Vote =
  validator :: address
  account :: address
  vote_nonce :: int
  serializedTx :: "transaction option"
  signature :: address

definition voteTx :: "Vote \<Rightarrow> transaction option" where
  "voteTx vote = serializedTx vote"

definition voteTxHash :: "Vote \<Rightarrow> hash option" where
  "voteTxHash vote = (case serializedTx vote of None \<Rightarrow> None | Some t \<Rightarrow> tx_hash t)"

text \<open>\<^verbatim>\<open>new Set(votes.map(v => v.validator)).size\<close>\<close>

definition distinctValidators :: "Vote list \<Rightarrow> nat" where
  "distinctValidators votes = length (remdups (map validator votes))"

definition countQuorum :: "Vote list \<Rightarrow> hash option \<Rightarrow> nat" where
  "countQuorum votes txHash =
     distinctValidators (filter (\<lambda>v. voteTxHash v = txHash) votes)"

text \<open>
  \<^verbatim>\<open>verifyVote\<close>: the lower-cased validator field must be in the validator set, and the
  lower-cased recovered address must equal the lower-cased validator field. Between the
  two tests the vote's digest is packed with the nonce as a \<^verbatim>\<open>uint256\<close>; ethers throws
  there unless the nonce is an integer from 0 to \<open>2^53 - 1\<close>, and a vote on which
  \<^verbatim>\<open>verifyVote\<close> throws is rejected like one on which it returns false. Every nonce that
  passes is therefore an integer on which the source's arithmetic is exact.
\<close>

definition verifyVote :: "Vote \<Rightarrow> address set \<Rightarrow> bool" where
  "verifyVote vote validatorSet =
     (if toLowerCase (validator vote) \<notin> validatorSet then False
      else if vote_nonce vote < 0 \<or> 2 ^ 53 - 1 < vote_nonce vote then False
      else toLowerCase (signature vote) = toLowerCase (validator vote))"

section \<open>Recovery-chain resolver (validator-core.ts, getTxChainStart)\<close>

text \<open>
  \<^verbatim>\<open>tx.to!.toLowerCase()\<close> throws a TypeError on a transaction without recipient;
  \<^verbatim>\<open>Transaction.from(tx.data)\<close> throws on a payload that is no transaction.
\<close>

fun getTxChainStart :: "transaction \<Rightarrow> error + transaction" where
  "getTxChainStart (Transaction f None v n d env) = Inl TypeError"
| "getTxChainStart (Transaction f (Some t) v n (Serialized tipTx) env) =
     (if t = RECOVERY_CONTRACT then getTxChainStart tipTx
      else Inr (Transaction f (Some t) v n (Serialized tipTx) env))"
| "getTxChainStart (Transaction f (Some t) v n Garbage env) =
     (if t = RECOVERY_CONTRACT then Inl DecodeError
      else Inr (Transaction f (Some t) v n Garbage env))"
| "getTxChainStart (Transaction f (Some t) v n Empty env) =
     Inr (Transaction f (Some t) v n Empty env)"

text \<open>A recovery transaction of the given sender and nonce around a tip.\<close>

definition recoveryOf :: "address \<Rightarrow> int \<Rightarrow> transaction \<Rightarrow> transaction" where
  "recoveryOf sender n tip =
     Transaction (Some sender) (Some RECOVERY_CONTRACT) 0 n (Serialized tip) 0"

text \<open>\<open>nest d tip\<close> wraps \<open>tip\<close> in \<open>d\<close> recovery transactions, nonces ascending.\<close>

fun nest :: "nat \<Rightarrow> transaction \<Rightarrow> transaction" where
  "nest 0 tip = tip"
| "nest (Suc d) tip = recoveryOf ''0xa'' (tx_nonce tip + int (Suc d)) (nest d tip)"

definition payment0 :: transaction where
  "payment0 = Transaction (Some ''0xa'') (Some ''0xb'') 100 0 Empty 0"

section \<open>Validator state (validator-core.ts)\<close>

text \<open>
  The configuration a core is constructed with: its own address, the validator set (the
  constructor stores the validators' addresses lower-cased) and the protocol parameters
  \<^verbatim>\<open>N_VALIDATORS\<close> and \<^verbatim>\<open>F_BYZANTINE\<close>, from which the two thresholds derive. The classic core and the second copy of the recovery core take one
  more constructor argument, \<^verbatim>\<open>skipVerification\<close>, false unless the benchmark harness
  sets it; the model is of cores constructed with verification on, in which every stored
  vote has passed \<^verbatim>\<open>verifyVote\<close> or was signed by the core itself.
\<close>

record Config =
  address :: address
  validatorSet :: "address set"
  N_VALIDATORS :: nat
  F_BYZANTINE :: nat

definition FINALITY_QUORUM :: "Config \<Rightarrow> int" where
  "FINALITY_QUORUM c = int (N_VALIDATORS c) - int (F_BYZANTINE c)"

definition NOTARISATION_QUORUM :: "Config \<Rightarrow> int" where
  "NOTARISATION_QUORUM c = int (N_VALIDATORS c) - 3 * int (F_BYZANTINE c)"

text \<open>
  The mutable state: the account table and the vote store. \<^verbatim>\<open>getAccount\<close> creates a
  missing account with the default fields and \<^verbatim>\<open>getVotes\<close> reads a missing list as empty;
  the model keeps both tables total, with these defaults at the missing keys. The
  \<^verbatim>\<open>acc\<close> and \<^verbatim>\<open>votes\<close> objects the source passes around are references into these
  tables, so the model passes their keys.
\<close>

record ValidatorCore =
  accounts :: "address \<Rightarrow> AccountState"
  voteStore :: "address \<Rightarrow> int \<Rightarrow> Vote list"

definition defaultAccount :: AccountState where
  "defaultAccount = \<lparr>balance = 0, nonce = 0, pending = False, finalised = -1\<rparr>"

text \<open>The constructor: genesis accounts over the defaults, an empty vote store.\<close>

definition newValidatorCore :: "(address \<times> int) list \<Rightarrow> ValidatorCore" where
  "newValidatorCore genesisAccounts =
     \<lparr>accounts = foldl (\<lambda>m (a, b). m(a := defaultAccount\<lparr>balance := b\<rparr>))
                   (\<lambda>_. defaultAccount) genesisAccounts,
      voteStore = (\<lambda>_ _. [])\<rparr>"

definition getAccount :: "ValidatorCore \<Rightarrow> address \<Rightarrow> AccountState" where
  "getAccount s a = accounts s a"

definition getVotes :: "ValidatorCore \<Rightarrow> address \<Rightarrow> int \<Rightarrow> Vote list" where
  "getVotes s a k = voteStore s a k"

definition setAccount :: "ValidatorCore \<Rightarrow> address \<Rightarrow> AccountState \<Rightarrow> ValidatorCore" where
  "setAccount s a acc = s\<lparr>accounts := (accounts s)(a := acc)\<rparr>"

text \<open>\<^verbatim>\<open>voteStore[account][nonce].push(vote)\<close>\<close>

definition pushVote :: "ValidatorCore \<Rightarrow> Vote \<Rightarrow> ValidatorCore" where
  "pushVote s vote =
     s\<lparr>voteStore := (voteStore s)(account vote :=
         (voteStore s (account vote))(vote_nonce vote :=
            voteStore s (account vote) (vote_nonce vote) @ [vote]))\<rparr>"

definition signVote :: "Config \<Rightarrow> address \<Rightarrow> int \<Rightarrow> transaction option \<Rightarrow> Vote" where
  "signVote c a k tx =
     \<lparr>validator = address c, account = a, vote_nonce = k, serializedTx = tx,
      signature = address c\<rparr>"

subsection \<open>Transaction validation\<close>

definition validatePayment :: "ValidatorCore \<Rightarrow> transaction \<Rightarrow> error option" where
  "validatePayment s tx =
     (case tx_from tx of
        None \<Rightarrow> Some TypeError
      | Some sender \<Rightarrow>
          if finalised (getAccount s sender) \<noteq> tx_nonce tx - 1 then Some NotFinalisedPrev
          else if balance (getAccount s sender) < int (tx_value tx) then Some InsufficientBalance
          else None)"

text \<open>The loop \<^verbatim>\<open>for (k = tipTx.nonce + 1; k < tx.nonce; k++)\<close> of validateRecovery.\<close>

function intermediateBots :: "Config \<Rightarrow> ValidatorCore \<Rightarrow> address \<Rightarrow> int \<Rightarrow> int \<Rightarrow> error option" where
  "intermediateBots c s sender k m =
     (if k < m then
        (if int (countQuorum (getVotes s sender k) None) < NOTARISATION_QUORUM c
         then Some (IntermediateNotBottom k)
         else intermediateBots c s sender (k + 1) m)
      else None)"
  by pat_completeness auto
termination
  by (relation "measure (\<lambda>(c, s, sender, k, m). nat (m - k))") auto

declare intermediateBots.simps [simp del]

definition validateRecovery :: "Config \<Rightarrow> ValidatorCore \<Rightarrow> transaction \<Rightarrow> error option" where
  "validateRecovery c s tx =
     (case tx_data tx of
        Empty \<Rightarrow> Some MissingTip
      | Garbage \<Rightarrow> Some TipUndecodable
      | Serialized tipTx \<Rightarrow>
          (case tx_from tx of
             None \<Rightarrow> Some TypeError
           | Some sender \<Rightarrow>
               if tx_from tipTx \<noteq> Some sender then Some TipSenderMismatch
               else if int (countQuorum (getVotes s sender (tx_nonce tipTx)) (tx_hash tipTx))
                        < NOTARISATION_QUORUM c
               then Some TipNotNotarised
               else intermediateBots c s sender (tx_nonce tipTx + 1) (tx_nonce tx)))"

subsection \<open>Quorum evaluator (getMaxQuorumCert)\<close>

text \<open>
  \<^verbatim>\<open>votesByTx\<close> is a JavaScript object used as a dictionary; \<^verbatim>\<open>Object.values\<close> lists
  its groups in the order the keys were first inserted, so it is an association list.
  The key of a bottom vote is \<^verbatim>\<open>"BOT"\<close>, here \<open>None\<close>.
\<close>

definition addVote :: "(hash option \<times> Vote list) list \<Rightarrow> Vote \<Rightarrow> (hash option \<times> Vote list) list" where
  "addVote groups vote =
     (if voteTxHash vote \<in> fst ` set groups
      then map (\<lambda>(key, txVotes). if key = voteTxHash vote then (key, txVotes @ [vote])
                                  else (key, txVotes)) groups
      else groups @ [(voteTxHash vote, [vote])])"

definition votesByTx :: "Vote list \<Rightarrow> (hash option \<times> Vote list) list" where
  "votesByTx votes = foldl addVote [] votes"

definition maxStep :: "nat \<times> transaction option \<Rightarrow> hash option \<times> Vote list \<Rightarrow> nat \<times> transaction option" where
  "maxStep m g =
     (if distinctValidators (snd g) > fst m
      then (distinctValidators (snd g), (case snd g of [] \<Rightarrow> None | v # _ \<Rightarrow> voteTx v))
      else m)"

definition getMaxQuorumCert :: "Vote list \<Rightarrow> nat \<times> transaction option" where
  "getMaxQuorumCert votes = foldl maxStep (0, None) (votesByTx votes)"

subsection \<open>Execution\<close>

text \<open>
  \<^verbatim>\<open>getAccount(tx.from!)\<close> and \<^verbatim>\<open>getAccount(tx.to!)\<close> throw a TypeError on null, before
  any balance is written. The two balances are written one after the other, on the same
  object when sender and recipient are the same account.
\<close>

definition executeTransfer :: "ValidatorCore \<Rightarrow> transaction \<Rightarrow> error + ValidatorCore" where
  "executeTransfer s tx =
     (case tx_from tx of
        None \<Rightarrow> Inl TypeError
      | Some sender \<Rightarrow>
          (case tx_to tx of
             None \<Rightarrow> Inl TypeError
           | Some recipient \<Rightarrow>
               let s1 = setAccount s sender
                          ((getAccount s sender)\<lparr>balance := balance (getAccount s sender) - int (tx_value tx)\<rparr>)
               in Inr (setAccount s1 recipient
                          ((getAccount s1 recipient)\<lparr>balance := balance (getAccount s1 recipient) + int (tx_value tx)\<rparr>))))"

text \<open>
  The second block of processCertificate (\<^verbatim>\<open>// Handle finality (n-f quorum)\<close>), the same
  text in both copies of the recovery core. \<open>a\<close> is the key of \<^verbatim>\<open>acc\<close>, \<open>k\<close> the
  nonce of the votes, \<open>quorum\<close> and \<open>tx\<close> the result of the quorum evaluator. The
  result is the state, the exception thrown (if any) and whether the block advanced
  \<^verbatim>\<open>acc.nonce\<close> (the second copy's \<^verbatim>\<open>nonceIncremented\<close>).
\<close>

definition handleFinality ::
  "Config \<Rightarrow> ValidatorCore \<Rightarrow> address \<Rightarrow> int \<Rightarrow> nat \<Rightarrow> transaction option
     \<Rightarrow> ValidatorCore \<times> error option \<times> bool" where
  "handleFinality c s a k quorum tx =
     (case tx of
        None \<Rightarrow> (s, None, False)
      | Some t \<Rightarrow>
          if int quorum \<ge> FINALITY_QUORUM c \<and> k > finalised (getAccount s a) then
            (case getTxChainStart t of
               Inl e \<Rightarrow> (s, Some e, False)
             | Inr originalTx \<Rightarrow>
                 if tx_nonce originalTx = finalised (getAccount s a)
                    \<or> tx_nonce originalTx = finalised (getAccount s a) + 1 then
                   (case (if tx_nonce originalTx = finalised (getAccount s a) + 1
                          then executeTransfer s originalTx else Inr s) of
                      Inl e \<Rightarrow> (s, Some e, False)
                    | Inr s1 \<Rightarrow>
                        let s2 = setAccount s1 a ((getAccount s1 a)\<lparr>finalised := k\<rparr>)
                        in if k \<ge> nonce (getAccount s2 a)
                           then (setAccount s2 a ((getAccount s2 a)\<lparr>nonce := k + 1, pending := False\<rparr>),
                                 None, True)
                           else (s2, None, False))
                 else (s, None, False))
          else (s, None, False))"

subsection \<open>Vote ingress and certificate processor\<close>

text \<open>
  A call returns the new state, the votes handed to \<^verbatim>\<open>broadcastVoteCallback\<close> in order,
  and the exception thrown, if any. An exception leaves the mutations made before it in
  place, as in the source.
\<close>

type_synonym outcome = "ValidatorCore \<times> Vote list \<times> error option"

definition hasBot :: "Config \<Rightarrow> Vote list \<Rightarrow> bool" where
  "hasBot c votes = list_ex (\<lambda>v. validator v = address c \<and> serializedTx v = None) votes"

text \<open>The deduplication test of onVote: true when the incoming vote is dropped.\<close>

definition isDuplicate :: "Vote list \<Rightarrow> Vote \<Rightarrow> bool" where
  "isDuplicate existing vote =
     (if serializedTx vote \<noteq> None
      then list_ex (\<lambda>v. validator v = validator vote) existing
      else list_ex (\<lambda>v. validator v = validator vote \<and> serializedTx v = None) existing)"

text \<open>
  Termination: the processor calls onVote only with this validator's bottom vote and only
  when the list holds none; after that vote is pushed the list holds one.
\<close>

lemma hasBot_append [simp]: "hasBot c (xs @ ys) = (hasBot c xs \<or> hasBot c ys)"
  by (simp add: hasBot_def)

lemma voteStore_pushVote:
  "voteStore (pushVote s vote) a k =
     (if a = account vote \<and> k = vote_nonce vote then voteStore s a k @ [vote] else voteStore s a k)"
  by (simp add: pushVote_def)

lemma voteStore_setAccount [simp]: "voteStore (setAccount s a acc) = voteStore s"
  by (simp add: setAccount_def)

function onVote :: "Config \<Rightarrow> ValidatorCore \<Rightarrow> Vote \<Rightarrow> outcome"
  and processCertificate :: "Config \<Rightarrow> ValidatorCore \<Rightarrow> address \<Rightarrow> int \<Rightarrow> outcome" where
  "onVote c s vote =
     (if \<not> verifyVote vote (validatorSet c) then (s, [], Some InvalidVote)
      else if isDuplicate (voteStore s (account vote) (vote_nonce vote)) vote then (s, [], None)
      else if vote_nonce vote = nonce (getAccount (pushVote s vote) (account vote))
              \<and> int (length (voteStore (pushVote s vote) (account vote) (vote_nonce vote)))
                   \<ge> FINALITY_QUORUM c
           then processCertificate c (pushVote s vote) (account vote) (vote_nonce vote)
           else (pushVote s vote, [], None))"
| "processCertificate c s a k =
     (case voteStore s a k of
        [] \<Rightarrow> (s, [], Some TypeError)
      | v0 # vs \<Rightarrow>
          (if vote_nonce v0 = nonce (getAccount s a) then
             (if int (fst (getMaxQuorumCert (v0 # vs))) < NOTARISATION_QUORUM c then
                (if \<not> hasBot c (voteStore s a k) then
                   (case onVote c (setAccount s a ((getAccount s a)\<lparr>pending := True\<rparr>))
                           (signVote c (account v0) (vote_nonce v0) None) of
                      (s2, out, Some e) \<Rightarrow> (s2, out, Some e)
                    | (s2, out, None) \<Rightarrow>
                        (case handleFinality c s2 a (vote_nonce v0)
                                (fst (getMaxQuorumCert (v0 # vs))) (snd (getMaxQuorumCert (v0 # vs))) of
                           (s3, e, _) \<Rightarrow> (s3, out @ [signVote c (account v0) (vote_nonce v0) None], e)))
                 else
                   (case handleFinality c s a (vote_nonce v0)
                           (fst (getMaxQuorumCert (v0 # vs))) (snd (getMaxQuorumCert (v0 # vs))) of
                      (s3, e, _) \<Rightarrow> (s3, [], e)))
              else
                (case handleFinality c
                        (if pending (getAccount s a)
                         then setAccount s a ((getAccount s a)\<lparr>nonce := vote_nonce v0 + 1, pending := False\<rparr>)
                         else s)
                        a (vote_nonce v0)
                        (fst (getMaxQuorumCert (v0 # vs))) (snd (getMaxQuorumCert (v0 # vs))) of
                   (s3, e, _) \<Rightarrow> (s3, [], e)))
           else
             (case handleFinality c s a (vote_nonce v0)
                     (fst (getMaxQuorumCert (v0 # vs))) (snd (getMaxQuorumCert (v0 # vs))) of
                (s3, e, _) \<Rightarrow> (s3, [], e))))"
  by pat_completeness auto

termination
  by (relation "measure (\<lambda>x. case x of
          Inl (c, s, vote) \<Rightarrow>
            (if (validator vote = address c \<and> serializedTx vote = None)
                \<or> hasBot c (voteStore s (account vote) (vote_nonce vote)) then 1 else 3)
        | Inr (c, s, a, k) \<Rightarrow> (if hasBot c (voteStore s a k) then 0 else 2))")
     (auto simp: voteStore_pushVote hasBot_def signVote_def)

declare onVote.simps [simp del] processCertificate.simps [simp del]

subsection \<open>Transaction ingress (onTransaction)\<close>

text \<open>
  The result carries the returned vote, or the exception. The returned vote is broadcast
  last, after onVote has run.
\<close>

definition onTransaction ::
  "Config \<Rightarrow> ValidatorCore \<Rightarrow> bytes \<Rightarrow> ValidatorCore \<times> Vote list \<times> (error + Vote)" where
  "onTransaction c s signedTx =
     (case Transaction_from signedTx of
        Inl e \<Rightarrow> (s, [], Inl e)
      | Inr tx \<Rightarrow>
          (case tx_from tx of
             None \<Rightarrow> (s, [], Inl BadSignature)
           | Some sender \<Rightarrow>
               if pending (getAccount s sender) then (s, [], Inl Pending)
               else if tx_nonce tx \<noteq> nonce (getAccount s sender) then (s, [], Inl NonceMismatch)
               else
                 (case tx_to tx of
                    None \<Rightarrow> (s, [], Inl TypeError)
                  | Some recipient \<Rightarrow>
                      (case (if recipient = RECOVERY_CONTRACT then validateRecovery c s tx
                             else validatePayment s tx) of
                         Some e \<Rightarrow> (s, [], Inl e)
                       | None \<Rightarrow>
                           (case onVote c (setAccount s sender ((getAccount s sender)\<lparr>pending := True\<rparr>))
                                   (signVote c sender (tx_nonce tx) (Some tx)) of
                              (s2, out, Some e) \<Rightarrow> (s2, out, Inl e)
                            | (s2, out, None) \<Rightarrow>
                                (s2, out @ [signVote c sender (tx_nonce tx) (Some tx)],
                                 Inr (signVote c sender (tx_nonce tx) (Some tx))))))))"

text \<open>A run of the validator over a list of inputs; exceptions are caught by the caller.\<close>

datatype input = OnTransaction bytes | OnVote Vote

fun step :: "Config \<Rightarrow> ValidatorCore \<Rightarrow> input \<Rightarrow> ValidatorCore" where
  "step c s (OnTransaction b) = fst (onTransaction c s b)"
| "step c s (OnVote v) = fst (onVote c s v)"

definition run :: "Config \<Rightarrow> ValidatorCore \<Rightarrow> input list \<Rightarrow> ValidatorCore" where
  "run c s inputs = foldl (step c) s inputs"

section \<open>The second copy of the recovery core (client.ts, from line 146)\<close>

text \<open>
  client.ts holds, after the client, a second \<^verbatim>\<open>ValidatorCore\<close>. It differs from
  validator-core.ts in four places: the thresholds are instance fields computed from the
  number of validators; onVote runs the processor after every stored vote, for any nonce;
  the processor itself tests \<^verbatim>\<open>votes.length >= finalityQuorum\<close> before the bottom vote
  and re-runs itself for the new nonce when it advanced \<^verbatim>\<open>acc.nonce\<close>; onTransaction
  stores the own vote with \<^verbatim>\<open>storeVote\<close>, without onVote (and onVote tests
  \<^verbatim>\<open>!this.skipVerification\<close> before \<^verbatim>\<open>verifyVote\<close>, true here). validatePayment,
  validateRecovery, executeTransfer, getTxChainStart, getMaxQuorumCert and the finality
  block are the same text.

  The recursion of this processor follows the nonce upwards through the stored votes; the
  model bounds it by fuel and reports exhaustion as the error \<open>OutOfFuel\<close>. The nonces
  it runs at are those of verified votes and of decoded transactions, which ethers keeps
  within \<open>2^53 - 1\<close>, so that \<^verbatim>\<open>nonce + 1\<close> is exact.
\<close>

definition storeVote :: "ValidatorCore \<Rightarrow> Vote \<Rightarrow> ValidatorCore" where
  "storeVote s vote = pushVote s vote"

text \<open>
  What follows the first block in the second copy: the finality block on the state the
  first block left (\<open>out\<close> are the votes broadcast so far, \<open>inc\<close> whether the first
  block advanced the nonce), then the re-entry, given as the continuation \<open>again\<close>.
\<close>

definition finalityThenReentry ::
  "(ValidatorCore \<Rightarrow> address \<Rightarrow> int \<Rightarrow> outcome) \<Rightarrow> Config \<Rightarrow> address \<Rightarrow> int \<Rightarrow> nat
     \<Rightarrow> transaction option \<Rightarrow> ValidatorCore \<Rightarrow> Vote list \<Rightarrow> bool \<Rightarrow> outcome" where
  "finalityThenReentry again c a k quorum tx s1 out inc =
     (case handleFinality c s1 a k quorum tx of
        (s3, Some e, _) \<Rightarrow> (s3, out, Some e)
      | (s3, None, inc2) \<Rightarrow>
          if inc \<or> inc2 then
            (case again s3 a (nonce (getAccount s3 a)) of
               (s4, out2, e) \<Rightarrow> (s4, out @ out2, e))
          else (s3, out, None))"

fun onVote2 :: "nat \<Rightarrow> Config \<Rightarrow> ValidatorCore \<Rightarrow> Vote \<Rightarrow> outcome"
  and processCertificate2 :: "nat \<Rightarrow> Config \<Rightarrow> ValidatorCore \<Rightarrow> address \<Rightarrow> int \<Rightarrow> outcome" where
  "onVote2 0 c s vote = (s, [], Some OutOfFuel)"
| "onVote2 (Suc fuel) c s vote =
     (if \<not> verifyVote vote (validatorSet c) then (s, [], Some InvalidVote)
      else if isDuplicate (voteStore s (account vote) (vote_nonce vote)) vote then (s, [], None)
      else processCertificate2 fuel c (pushVote s vote) (account vote) (vote_nonce vote))"
| "processCertificate2 0 c s a k = (s, [], Some OutOfFuel)"
| "processCertificate2 (Suc fuel) c s a k =
     (if k = nonce (getAccount s a) then
        (if int (fst (getMaxQuorumCert (getVotes s a k))) < NOTARISATION_QUORUM c then
           (if int (length (getVotes s a k)) \<ge> FINALITY_QUORUM c \<and> \<not> hasBot c (getVotes s a k) then
              (case onVote2 fuel c (setAccount s a ((getAccount s a)\<lparr>pending := True\<rparr>))
                      (signVote c a k None) of
                 (s2, out, Some e) \<Rightarrow> (s2, out, Some e)
               | (s2, out, None) \<Rightarrow>
                   finalityThenReentry (processCertificate2 fuel c) c a k
                     (fst (getMaxQuorumCert (getVotes s a k))) (snd (getMaxQuorumCert (getVotes s a k)))
                     s2 (out @ [signVote c a k None]) False)
            else
              finalityThenReentry (processCertificate2 fuel c) c a k
                (fst (getMaxQuorumCert (getVotes s a k))) (snd (getMaxQuorumCert (getVotes s a k)))
                s [] False)
         else
           (if pending (getAccount s a) then
              finalityThenReentry (processCertificate2 fuel c) c a k
                (fst (getMaxQuorumCert (getVotes s a k))) (snd (getMaxQuorumCert (getVotes s a k)))
                (setAccount s a ((getAccount s a)\<lparr>nonce := k + 1, pending := False\<rparr>)) [] True
            else
              finalityThenReentry (processCertificate2 fuel c) c a k
                (fst (getMaxQuorumCert (getVotes s a k))) (snd (getMaxQuorumCert (getVotes s a k)))
                s [] False))
      else
        finalityThenReentry (processCertificate2 fuel c) c a k
          (fst (getMaxQuorumCert (getVotes s a k))) (snd (getMaxQuorumCert (getVotes s a k)))
          s [] False)"

definition onTransaction2 ::
  "nat \<Rightarrow> Config \<Rightarrow> ValidatorCore \<Rightarrow> bytes \<Rightarrow> ValidatorCore \<times> Vote list \<times> (error + Vote)" where
  "onTransaction2 fuel c s signedTx =
     (case Transaction_from signedTx of
        Inl e \<Rightarrow> (s, [], Inl e)
      | Inr tx \<Rightarrow>
          (case tx_from tx of
             None \<Rightarrow> (s, [], Inl BadSignature)
           | Some sender \<Rightarrow>
               if pending (getAccount s sender) then (s, [], Inl Pending)
               else if tx_nonce tx \<noteq> nonce (getAccount s sender) then (s, [], Inl NonceMismatch)
               else
                 (case tx_to tx of
                    None \<Rightarrow> (s, [], Inl TypeError)
                  | Some recipient \<Rightarrow>
                      (case (if recipient = RECOVERY_CONTRACT then validateRecovery c s tx
                             else validatePayment s tx) of
                         Some e \<Rightarrow> (s, [], Inl e)
                       | None \<Rightarrow>
                           (case processCertificate2 fuel c
                                   (storeVote (setAccount s sender ((getAccount s sender)\<lparr>pending := True\<rparr>))
                                      (signVote c sender (tx_nonce tx) (Some tx)))
                                   sender (tx_nonce tx) of
                              (s2, out, Some e) \<Rightarrow> (s2, out, Inl e)
                            | (s2, out, None) \<Rightarrow>
                                (s2, out @ [signVote c sender (tx_nonce tx) (Some tx)],
                                 Inr (signVote c sender (tx_nonce tx) (Some tx))))))))"

fun step2 :: "nat \<Rightarrow> Config \<Rightarrow> ValidatorCore \<Rightarrow> input \<Rightarrow> ValidatorCore" where
  "step2 fuel c s (OnTransaction b) = fst (onTransaction2 fuel c s b)"
| "step2 fuel c s (OnVote v) = fst (onVote2 fuel c s v)"

definition run2 :: "nat \<Rightarrow> Config \<Rightarrow> ValidatorCore \<Rightarrow> input list \<Rightarrow> ValidatorCore" where
  "run2 fuel c s inputs = foldl (step2 fuel c) s inputs"

section \<open>Classic core (classic-validator-core.ts)\<close>

text \<open>
  The classic core keeps the same tables. Its only threshold is
  \<^verbatim>\<open>finalityQuorum = n - fByzantine\<close>; it has no bottom vote and no recovery. Its onVote
  tests \<^verbatim>\<open>!this.skipVerification\<close> before \<^verbatim>\<open>verifyVote\<close>, true here.
\<close>

definition classic_processCertificate ::
  "Config \<Rightarrow> ValidatorCore \<Rightarrow> address \<Rightarrow> int \<Rightarrow> ValidatorCore \<times> error option" where
  "classic_processCertificate c s a k =
     (case snd (getMaxQuorumCert (getVotes s a k)) of
        None \<Rightarrow> (s, None)
      | Some tx \<Rightarrow>
          if k = nonce (getAccount s a)
             \<and> int (fst (getMaxQuorumCert (getVotes s a k))) \<ge> FINALITY_QUORUM c then
            (case executeTransfer s tx of
               Inl e \<Rightarrow> (s, Some e)
             | Inr s1 \<Rightarrow>
                 (setAccount s1 a
                    ((getAccount s1 a)\<lparr>nonce := k + 1, pending := False, finalised := k\<rparr>), None))
          else (s, None))"

definition classic_onVote :: "Config \<Rightarrow> ValidatorCore \<Rightarrow> Vote \<Rightarrow> ValidatorCore \<times> error option" where
  "classic_onVote c s vote =
     (if \<not> verifyVote vote (validatorSet c) then (s, Some InvalidVote)
      else if list_ex (\<lambda>v. validator v = validator vote) (voteStore s (account vote) (vote_nonce vote))
      then (s, None)
      else classic_processCertificate c (pushVote s vote) (account vote) (vote_nonce vote))"

definition classic_onTransaction ::
  "Config \<Rightarrow> ValidatorCore \<Rightarrow> bytes \<Rightarrow> ValidatorCore \<times> Vote list \<times> (error + Vote)" where
  "classic_onTransaction c s signedTx =
     (case Transaction_from signedTx of
        Inl e \<Rightarrow> (s, [], Inl e)
      | Inr tx \<Rightarrow>
          (case tx_from tx of
             None \<Rightarrow> (s, [], Inl BadSignature)
           | Some sender \<Rightarrow>
               if pending (getAccount s sender) then (s, [], Inl Pending)
               else if tx_nonce tx \<noteq> nonce (getAccount s sender) then (s, [], Inl NonceMismatch)
               else if balance (getAccount s sender) < int (tx_value tx)
               then (s, [], Inl InsufficientBalance)
               else
                 (case classic_processCertificate c
                         (storeVote (setAccount s sender ((getAccount s sender)\<lparr>pending := True\<rparr>))
                            (signVote c sender (tx_nonce tx) (Some tx)))
                         sender (tx_nonce tx) of
                    (s2, Some e) \<Rightarrow> (s2, [], Inl e)
                  | (s2, None) \<Rightarrow>
                      (s2, [signVote c sender (tx_nonce tx) (Some tx)],
                       Inr (signVote c sender (tx_nonce tx) (Some tx))))))"

fun classic_step :: "Config \<Rightarrow> ValidatorCore \<Rightarrow> input \<Rightarrow> ValidatorCore" where
  "classic_step c s (OnTransaction b) = fst (classic_onTransaction c s b)"
| "classic_step c s (OnVote v) = fst (classic_onVote c s v)"

text \<open>The states a classic core passes through, one per input.\<close>

fun classic_trace :: "Config \<Rightarrow> ValidatorCore \<Rightarrow> input list \<Rightarrow> ValidatorCore list" where
  "classic_trace c s [] = []"
| "classic_trace c s (i # inputs) = classic_step c s i # classic_trace c (classic_step c s i) inputs"

section \<open>Properties\<close>

subsection \<open>Case analysis of the mutual recursion\<close>

text \<open>
  The conditions under which the mutually recursive onVote and processCertificate of
  validator-core.ts take their branches, named for the case analyses below: onVote runs
  the processor on the stored vote; the processor casts the bottom vote.
\<close>

definition triggers :: "Config \<Rightarrow> ValidatorCore \<Rightarrow> Vote \<Rightarrow> bool" where
  "triggers c s vote =
     (vote_nonce vote = nonce (getAccount (pushVote s vote) (account vote))
      \<and> int (length (voteStore (pushVote s vote) (account vote) (vote_nonce vote)))
           \<ge> FINALITY_QUORUM c)"

definition castsBot :: "Config \<Rightarrow> ValidatorCore \<Rightarrow> address \<Rightarrow> Vote list \<Rightarrow> bool" where
  "castsBot c s a votes =
     (vote_nonce (hd votes) = nonce (getAccount s a)
      \<and> int (fst (getMaxQuorumCert votes)) < NOTARISATION_QUORUM c
      \<and> \<not> hasBot c votes)"

text \<open>The state the first block leaves when it casts no bottom vote.\<close>

definition afterAdvance :: "Config \<Rightarrow> ValidatorCore \<Rightarrow> address \<Rightarrow> Vote list \<Rightarrow> ValidatorCore" where
  "afterAdvance c s a votes =
     (if vote_nonce (hd votes) = nonce (getAccount s a)
         \<and> \<not> int (fst (getMaxQuorumCert votes)) < NOTARISATION_QUORUM c
         \<and> pending (getAccount s a)
      then setAccount s a ((getAccount s a)\<lparr>nonce := vote_nonce (hd votes) + 1, pending := False\<rparr>)
      else s)"

text \<open>
  onTransaction passes all its checks on the bytes; and the exceptions those checks
  throw (invalid signature, pending, nonce mismatch, payment and recovery validation).
\<close>

definition admits :: "Config \<Rightarrow> ValidatorCore \<Rightarrow> bytes \<Rightarrow> bool" where
  "admits c s b =
     (case Transaction_from b of
        Inl _ \<Rightarrow> False
      | Inr tx \<Rightarrow>
          (case tx_from tx of
             None \<Rightarrow> False
           | Some sender \<Rightarrow>
               \<not> pending (getAccount s sender) \<and> tx_nonce tx = nonce (getAccount s sender)
               \<and> (case tx_to tx of
                     None \<Rightarrow> False
                   | Some recipient \<Rightarrow>
                       (if recipient = RECOVERY_CONTRACT then validateRecovery c s tx
                        else validatePayment s tx) = None)))"

fun rejection :: "error \<Rightarrow> bool" where
  "rejection BadSignature = True"
| "rejection Pending = True"
| "rejection NonceMismatch = True"
| "rejection NotFinalisedPrev = True"
| "rejection InsufficientBalance = True"
| "rejection MissingTip = True"
| "rejection TipUndecodable = True"
| "rejection TipSenderMismatch = True"
| "rejection TipNotNotarised = True"
| "rejection (IntermediateNotBottom k) = True"
| "rejection InvalidVote = False"
| "rejection DecodeError = False"
| "rejection TypeError = False"
| "rejection OutOfFuel = False"

subsection \<open>Account invariants\<close>

text \<open>
  How the nonce fields of an account may change in one call: the nonce and finalised do
  not decrease, finalised stays below the nonce, and a pending account stays pending
  while its nonce stays.
\<close>

definition evolve :: "AccountState \<Rightarrow> AccountState \<Rightarrow> bool" where
  "evolve acc acc' =
     (nonce acc \<le> nonce acc' \<and> finalised acc \<le> finalised acc'
      \<and> (finalised acc < nonce acc \<longrightarrow> finalised acc' < nonce acc')
      \<and> (nonce acc' = nonce acc \<and> pending acc \<longrightarrow> pending acc'))"

definition evolves :: "ValidatorCore \<Rightarrow> ValidatorCore \<Rightarrow> bool" where
  "evolves s s' = (\<forall>a. evolve (accounts s a) (accounts s' a))"

text \<open>
  The transfer of \<open>orig\<close> applied to the balances: the sender's decreased and the
  recipient's increased by the amount (both, when they are the same account).
\<close>

definition transferred :: "ValidatorCore \<Rightarrow> ValidatorCore \<Rightarrow> transaction \<Rightarrow> bool" where
  "transferred s s' orig =
     (\<forall>b. balance (accounts s' b) =
            balance (accounts s b) - (if Some b = tx_from orig then int (tx_value orig) else 0)
                                   + (if Some b = tx_to orig then int (tx_value orig) else 0))"

text \<open>
  What the finality block does to the nonce fields when it finalises nonce \<open>k\<close> of
  account \<open>a\<close>: finalised becomes \<open>k\<close>; where \<open>k\<close> is at or above the account's nonce
  the nonce becomes \<open>k + 1\<close> and pending is cleared, below it both stay as they are. No
  other account's nonce, pending or finalised changes, and the vote store is untouched.
\<close>

definition finalisedAt :: "ValidatorCore \<Rightarrow> ValidatorCore \<Rightarrow> address \<Rightarrow> int \<Rightarrow> bool" where
  "finalisedAt s s' a k =
     (finalised (accounts s' a) = k
      \<and> (if nonce (accounts s a) \<le> k
          then nonce (accounts s' a) = k + 1 \<and> \<not> pending (accounts s' a)
          else nonce (accounts s' a) = nonce (accounts s a)
               \<and> pending (accounts s' a) = pending (accounts s a))
      \<and> (\<forall>b. b \<noteq> a \<longrightarrow> nonce (accounts s' b) = nonce (accounts s b)
                     \<and> pending (accounts s' b) = pending (accounts s b)
                     \<and> finalised (accounts s' b) = finalised (accounts s b))
      \<and> voteStore s' = voteStore s)"

subsection \<open>Balances\<close>









subsection \<open>Validators behind a list of votes\<close>

text \<open>
  The validators that cast the votes of a list. \<^verbatim>\<open>verifyVote\<close> identifies a vote's
  validator with the member of the validator set that its lower-cased validator field
  names, so two votes are of one validator when their validator fields agree up to case.
\<close>

definition distinctSigners :: "Vote list \<Rightarrow> nat" where
  "distinctSigners votes = length (remdups (map (\<lambda>v. toLowerCase (validator v)) votes))"

subsection \<open>Classic lock\<close>

text \<open>The account is locked at nonce \<open>k\<close>.\<close>

definition locked :: "ValidatorCore \<Rightarrow> address \<Rightarrow> int \<Rightarrow> bool" where
  "locked s a k = (pending (accounts s a) \<and> nonce (accounts s a) = k)"

subsection \<open>Re-entry\<close>

text \<open>
  In the second copy, no rule of the processor is enabled at the account's current nonce:
  running it there once more changes nothing and broadcasts nothing.
\<close>

definition quiescent :: "Config \<Rightarrow> ValidatorCore \<Rightarrow> address \<Rightarrow> bool" where
  "quiescent c s a =
     (processCertificate2 (Suc 0) c s a (nonce (getAccount s a)) = (s, [], None))"

section \<open>Scenarios: six validators, f = 1, validator v0\<close>

text \<open>
  Validator v0 of six, \<open>f = 1\<close>: finality quorum 5, notarisation quorum 3. A peer's
  vote carries the peer's own signature. Account A starts with balance 1000.
  \<open>respelled\<close> is a vote with the validator field written in upper case: the signature
  does not cover that field, so the vote verifies as before.
\<close>

definition cfg :: Config where
  "cfg = \<lparr>address = ''v0'', validatorSet = {''v0'', ''v1'', ''v2'', ''v3'', ''v4'', ''v5''},
          N_VALIDATORS = 6, F_BYZANTINE = 1\<rparr>"

definition peerVote :: "address \<Rightarrow> address \<Rightarrow> int \<Rightarrow> transaction option \<Rightarrow> Vote" where
  "peerVote v a k tx =
     \<lparr>validator = v, account = a, vote_nonce = k, serializedTx = tx, signature = v\<rparr>"

definition respelled :: "Vote \<Rightarrow> Vote" where
  "respelled v = v\<lparr>validator := map (\<lambda>ch. if 97 \<le> (of_char ch :: nat) \<and> (of_char ch :: nat) \<le> 122
                                            then char_of ((of_char ch :: nat) - 32) else ch) (validator v)\<rparr>"

definition pay :: "address \<Rightarrow> address \<Rightarrow> nat \<Rightarrow> int \<Rightarrow> transaction" where
  "pay sender recipient amount k = Transaction (Some sender) (Some recipient) amount k Empty 0"

definition genesis :: ValidatorCore where
  "genesis = newValidatorCore [(''A'', 1000)]"

definition tx0 :: transaction where
  "tx0 = pay ''A'' ''B'' 100 0"

definition tx1 :: transaction where
  "tx1 = pay ''A'' ''B'' 200 1"

definition votesFor :: "address list \<Rightarrow> int \<Rightarrow> transaction option \<Rightarrow> input list" where
  "votesFor vs k tx = map (\<lambda>v. OnVote (peerVote v ''A'' k tx)) vs"


text \<open>
  Votes of two validators that count as three: the validator has voted for \<open>tx0\<close>
  itself, v1 has voted for it, and v1's vote has arrived once more with the validator
  field in upper case; v2 and v3 have voted for other payments of A at nonce 0.
\<close>

definition twoAsThree :: "input list" where
  "twoAsThree =
     [OnTransaction (Serialized tx0),
      OnVote (peerVote ''v1'' ''A'' 0 (Some tx0)),
      OnVote (respelled (peerVote ''v1'' ''A'' 0 (Some tx0))),
      OnVote (peerVote ''v2'' ''A'' 0 (Some (pay ''A'' ''C'' 5 0))),
      OnVote (peerVote ''v3'' ''A'' 0 (Some (pay ''A'' ''D'' 7 0)))]"

text \<open>
  Four votes of the one validator v1 at nonce 0 of account A: for \<open>tx0\<close>, for another
  payment (validator field in upper case), for bottom, and for bottom again (upper case).
\<close>

definition fourOfOne :: "input list" where
  "fourOfOne =
     [OnVote (peerVote ''v1'' ''A'' 0 (Some tx0)),
      OnVote (respelled (peerVote ''v1'' ''A'' 0 (Some (pay ''A'' ''C'' 5 0)))),
      OnVote (peerVote ''v1'' ''A'' 0 None),
      OnVote (respelled (peerVote ''v1'' ''A'' 0 None))]"

text \<open>
  The classic core after its own vote for \<open>tx0\<close>, and the votes of v1 and v2 for
  \<open>tx0\<close>, each arriving in both spellings.
\<close>

definition classicLocked :: ValidatorCore where
  "classicLocked = fst (classic_onTransaction cfg genesis (Serialized tx0))"

definition twiceEach :: "input list" where
  "twiceEach =
     [OnVote (peerVote ''v1'' ''A'' 0 (Some tx0)),
      OnVote (respelled (peerVote ''v1'' ''A'' 0 (Some tx0))),
      OnVote (peerVote ''v2'' ''A'' 0 (Some tx0)),
      OnVote (respelled (peerVote ''v2'' ''A'' 0 (Some tx0)))]"

text \<open>
  The second copy of the core, with account A pending at nonce 2 (its own vote for a
  recovery) while only four votes for \<open>tx1\<close> at nonce 1 have arrived.
\<close>

definition lateFinality :: ValidatorCore where
  "lateFinality =
     run2 10 cfg genesis
       (votesFor [''v1'', ''v2'', ''v3'', ''v4'', ''v5''] 0 (Some tx0)
        @ votesFor [''v1'', ''v2'', ''v3''] 1 (Some tx1)
        @ [OnTransaction (Serialized tx1), OnTransaction (Serialized (recoveryOf ''A'' 2 tx1))])"

text \<open>
  Four votes of three validators at nonce 0 of account A: v1 has voted for a transaction
  and then bottom, v2 and v3 each for a transaction of their own.
\<close>

definition fourVotesOfThree :: "input list" where
  "fourVotesOfThree =
     [OnVote (peerVote ''v1'' ''A'' 0 (Some (pay ''A'' ''B'' 1 0))),
      OnVote (peerVote ''v1'' ''A'' 0 None),
      OnVote (peerVote ''v2'' ''A'' 0 (Some (pay ''A'' ''B'' 2 0))),
      OnVote (peerVote ''v3'' ''A'' 0 (Some (pay ''A'' ''B'' 3 0)))]"

text \<open>Five peers' votes for \<open>tx1\<close> at nonce 1, delivered before five for \<open>tx0\<close> at nonce 0.\<close>

definition outOfOrder :: "input list" where
  "outOfOrder =
     votesFor [''v1'', ''v2'', ''v3'', ''v4'', ''v5''] 1 (Some tx1)
     @ votesFor [''v1'', ''v2'', ''v3'', ''v4'', ''v5''] 0 (Some tx0)"

section \<open>Theorems\<close>

lemma getTxChainStart_recoveryOf:
  "getTxChainStart (recoveryOf s n tip) = getTxChainStart tip"
  by (simp add: recoveryOf_def)

text \<open>
  C9 (as stated): the chain-start resolver enforces a fixed recursion-depth cap and a
  recovery nested deeper than the cap is rejected as an invalid recovery.
  The resolver has no cap: a payment wrapped in nine recovery layers (one more than the
  cap of eight the design notes suggest) is resolved to the payment, not rejected.
\<close>

theorem getTxChainStart_depth9_counterexample:
  "getTxChainStart (nest 9 payment0) = Inr payment0"
  by (simp add: eval_nat_numeral recoveryOf_def payment0_def)

text \<open>
  C9 (amended): the resolver has no depth cap. For every depth \<open>d\<close>, resolving a
  transaction wrapped in \<open>d\<close> recovery layers gives exactly the result of resolving the
  innermost transaction: the resolver, a total function by structural recursion on the
  nested payload, rejects nothing for its depth.
\<close>

theorem getTxChainStart_no_cap:
  "getTxChainStart (nest d tip) = getTxChainStart tip"
  by (induction d) (simp_all add: getTxChainStart_recoveryOf)

lemma evolves_refl [simp]: "evolves s s"
  by (simp add: evolves_def evolve_def)

lemma evolves_trans: "evolves s s1 \<Longrightarrow> evolves s1 s2 \<Longrightarrow> evolves s s2"
  unfolding evolves_def evolve_def by (metis (no_types, lifting) order_trans order_antisym)

lemma accounts_setAccount:
  "accounts (setAccount s a acc) b = (if b = a then acc else accounts s b)"
  by (simp add: setAccount_def)

lemma accounts_pushVote [simp]: "accounts (pushVote s v) = accounts s"
  by (simp add: pushVote_def)

lemma evolves_pushVote [simp]: "evolves s (pushVote s v)"
  by (simp add: evolves_def evolve_def)

lemma evolves_pending [simp]:
  "evolves s (setAccount s a ((getAccount s a)\<lparr>pending := True\<rparr>))"
  by (simp add: evolves_def evolve_def accounts_setAccount getAccount_def)

lemma evolves_advance:
  "k = nonce (getAccount s a) \<Longrightarrow>
   evolves s (setAccount s a ((getAccount s a)\<lparr>nonce := k + 1, pending := False\<rparr>))"
  by (simp add: evolves_def evolve_def accounts_setAccount getAccount_def)

lemma executeTransfer_accounts:
  assumes "executeTransfer s tx = Inr s1"
  shows "\<exists>sender. tx_from tx = Some sender \<and>
           (\<forall>a. accounts s1 a = (accounts s a)\<lparr>balance := balance (accounts s a)
                     - (if a = sender then int (tx_value tx) else 0)
                     + (if Some a = tx_to tx then int (tx_value tx) else 0)\<rparr>)"
  using assms
  by (cases "tx_from tx"; cases "tx_to tx")
     (auto simp: executeTransfer_def Let_def accounts_setAccount getAccount_def)

lemma executeTransfer_fields:
  assumes "executeTransfer s tx = Inr s1"
  shows "nonce (accounts s1 a) = nonce (accounts s a)"
    and "pending (accounts s1 a) = pending (accounts s a)"
    and "finalised (accounts s1 a) = finalised (accounts s a)"
    and "voteStore s1 = voteStore s"
proof -
  from executeTransfer_accounts[OF assms] obtain sender where
    acc: "\<And>a. accounts s1 a = (accounts s a)\<lparr>balance := balance (accounts s a)
                     - (if a = sender then int (tx_value tx) else 0)
                     + (if Some a = tx_to tx then int (tx_value tx) else 0)\<rparr>"
    by blast
  show "nonce (accounts s1 a) = nonce (accounts s a)"
    and "pending (accounts s1 a) = pending (accounts s a)"
    and "finalised (accounts s1 a) = finalised (accounts s a)"
    by (simp_all add: acc)
  from assms show "voteStore s1 = voteStore s"
    by (cases "tx_from tx"; cases "tx_to tx") (auto simp: executeTransfer_def Let_def setAccount_def)
qed

lemma executeTransfer_error:
  "executeTransfer s tx = Inl e \<Longrightarrow> e = TypeError \<and> (tx_from tx = None \<or> tx_to tx = None)"
  by (auto simp: executeTransfer_def Let_def split: option.splits)

lemma executeTransfer_defined:
  "tx_from tx \<noteq> None \<Longrightarrow> tx_to tx \<noteq> None \<Longrightarrow> \<exists>s1. executeTransfer s tx = Inr s1"
  by (auto simp: executeTransfer_def Let_def)

text \<open>The resolver returns only transactions that have a recipient.\<close>

lemma getTxChainStart_to: "getTxChainStart t = Inr orig \<Longrightarrow> tx_to orig \<noteq> None"
  by (induction t rule: getTxChainStart.induct) (auto split: if_splits)

lemma getTxChainStart_error: "getTxChainStart t = Inl x \<Longrightarrow> x = DecodeError \<or> x = TypeError"
  by (induction t rule: getTxChainStart.induct) (auto split: if_splits)

lemma handleFinality_evolves:
  assumes "handleFinality c s a k q tx = (s', e, inc)"
  shows "evolves s s'"
proof (cases tx)
  case None
  with assms show ?thesis by (simp add: handleFinality_def)
next
  case (Some t)
  show ?thesis
  proof (cases "getTxChainStart t")
    case (Inl err)
    with assms Some show ?thesis by (auto simp: handleFinality_def split: if_splits)
  next
    case (Inr orig)
    show ?thesis
    proof (cases "executeTransfer s orig")
      case (Inl err)
      with assms Some Inr show ?thesis
        by (auto simp: handleFinality_def Let_def evolves_def evolve_def accounts_setAccount getAccount_def
                 split: if_splits)
    next
      case exec: (Inr s1)
      note f = executeTransfer_fields[OF exec]
      from assms Some Inr exec show ?thesis
        by (auto simp: handleFinality_def Let_def evolves_def evolve_def accounts_setAccount
                       getAccount_def f split: if_splits)
    qed
  qed
qed


lemma onVote_invalid:
  "\<not> verifyVote vote (validatorSet c) \<Longrightarrow> onVote c s vote = (s, [], Some InvalidVote)"
  by (subst onVote.simps) simp

lemma onVote_duplicate:
  "verifyVote vote (validatorSet c) \<Longrightarrow> isDuplicate (voteStore s (account vote) (vote_nonce vote)) vote
     \<Longrightarrow> onVote c s vote = (s, [], None)"
  by (subst onVote.simps) simp

lemma onVote_stored:
  "verifyVote vote (validatorSet c) \<Longrightarrow> \<not> isDuplicate (voteStore s (account vote) (vote_nonce vote)) vote
     \<Longrightarrow> onVote c s vote =
         (if triggers c s vote
          then processCertificate c (pushVote s vote) (account vote) (vote_nonce vote)
          else (pushVote s vote, [], None))"
  by (subst onVote.simps) (simp add: triggers_def)

lemma processCertificate_empty:
  "voteStore s a k = [] \<Longrightarrow> processCertificate c s a k = (s, [], Some TypeError)"
  by (subst processCertificate.simps) simp

lemma processCertificate_bot:
  assumes "voteStore s a k = votes" "votes \<noteq> []" "castsBot c s a votes"
  shows "processCertificate c s a k =
     (case onVote c (setAccount s a ((getAccount s a)\<lparr>pending := True\<rparr>))
             (signVote c (account (hd votes)) (vote_nonce (hd votes)) None) of
        (s2, out, Some e) \<Rightarrow> (s2, out, Some e)
      | (s2, out, None) \<Rightarrow>
          (case handleFinality c s2 a (vote_nonce (hd votes))
                  (fst (getMaxQuorumCert votes)) (snd (getMaxQuorumCert votes)) of
             (s3, e, _) \<Rightarrow> (s3, out @ [signVote c (account (hd votes)) (vote_nonce (hd votes)) None], e)))"
proof -
  from assms obtain v0 vs where v: "votes = v0 # vs" by (cases votes) auto
  with assms show ?thesis
    by (subst processCertificate.simps) (simp add: castsBot_def)
qed

lemma processCertificate_nobot:
  assumes "voteStore s a k = votes" "votes \<noteq> []" "\<not> castsBot c s a votes"
  shows "processCertificate c s a k =
     (case handleFinality c (afterAdvance c s a votes) a (vote_nonce (hd votes))
             (fst (getMaxQuorumCert votes)) (snd (getMaxQuorumCert votes)) of
        (s3, e, _) \<Rightarrow> (s3, [], e))"
proof -
  from assms obtain v0 vs where v: "votes = v0 # vs" by (cases votes) auto
  with assms show ?thesis
    by (subst processCertificate.simps) (auto simp: castsBot_def afterAdvance_def)
qed

lemma onVote_processCertificate_rel:
  fixes R :: "ValidatorCore \<Rightarrow> ValidatorCore \<Rightarrow> bool"
  assumes rfl: "\<And>s. R s s"
    and trans: "\<And>s s1 s2. R s s1 \<Longrightarrow> R s1 s2 \<Longrightarrow> R s s2"
    and push: "\<And>s v. \<not> isDuplicate (voteStore s (account v) (vote_nonce v)) v \<Longrightarrow> R s (pushVote s v)"
    and pend: "\<And>s a. R s (setAccount s a ((getAccount s a)\<lparr>pending := True\<rparr>))"
    and adv: "\<And>s a k. k = nonce (getAccount s a) \<Longrightarrow> pending (getAccount s a) \<Longrightarrow>
                R s (setAccount s a ((getAccount s a)\<lparr>nonce := k + 1, pending := False\<rparr>))"
    and fin: "\<And>c s a k q tx s' e inc. handleFinality c s a k q tx = (s', e, inc) \<Longrightarrow> R s s'"
  shows "onVote c s vote = (s', out, e) \<Longrightarrow> R s s'"
    and "processCertificate c s a k = (s', out, e) \<Longrightarrow> R s s'"
proof (induction c s vote and c s a k arbitrary: s' out e and s' out e
       rule: onVote_processCertificate.induct)
  case (1 c s vote)
  show ?case
  proof (cases "\<not> verifyVote vote (validatorSet c) \<or> isDuplicate (voteStore s (account vote) (vote_nonce vote)) vote")
    case True
    with "1.prems" have "s' = s"
      by (cases "verifyVote vote (validatorSet c)") (auto simp: onVote_invalid onVote_duplicate)
    then show ?thesis by (simp add: rfl)
  next
    case False
    then have p: "R s (pushVote s vote)" by (simp add: push)
    from False have eq: "onVote c s vote =
         (if triggers c s vote
          then processCertificate c (pushVote s vote) (account vote) (vote_nonce vote)
          else (pushVote s vote, [], None))" by (simp add: onVote_stored)
    show ?thesis
    proof (cases "triggers c s vote")
      case True
      with eq "1.prems" have pc: "processCertificate c (pushVote s vote) (account vote) (vote_nonce vote) = (s', out, e)"
        by simp
      from False have c1: "\<not> \<not> verifyVote vote (validatorSet c)"
        and c2: "\<not> isDuplicate (voteStore s (account vote) (vote_nonce vote)) vote" by simp_all
      from True have c3: "vote_nonce vote = nonce (getAccount (pushVote s vote) (account vote))
              \<and> int (length (voteStore (pushVote s vote) (account vote) (vote_nonce vote)))
                   \<ge> FINALITY_QUORUM c" unfolding triggers_def .
      have "R (pushVote s vote) s'" by (rule "1.IH"[OF c1 c2 c3 pc])
      with p show ?thesis by (rule trans)
    next
      case f2: False
      with eq "1.prems" have "s' = pushVote s vote" by simp
      with p show ?thesis by simp
    qed
  qed
next
  case (2 c s a k)
  show ?case
  proof (cases "voteStore s a k")
    case Nil
    with "2.prems" have "s' = s" by (simp add: processCertificate_empty)
    then show ?thesis by (simp add: rfl)
  next
    case (Cons v0 vs)
    let ?votes = "v0 # vs"
    let ?q = "fst (getMaxQuorumCert ?votes)"
    let ?tx = "snd (getMaxQuorumCert ?votes)"
    let ?bot = "signVote c (account v0) (vote_nonce v0) None"
    let ?sp = "setAccount s a ((getAccount s a)\<lparr>pending := True\<rparr>)"
    show ?thesis
    proof (cases "castsBot c s a ?votes")
      case True
      obtain s2 out2 e2 where ov: "onVote c ?sp ?bot = (s2, out2, e2)" by (cases "onVote c ?sp ?bot") auto
      from True Cons have "R ?sp s2"
        by (intro "2.IH"[OF Cons _ _ _ ov]) (simp_all add: castsBot_def)
      then have r1: "R s s2" by (rule trans[OF pend])
      obtain s3 e3 i3 where hf: "handleFinality c s2 a (vote_nonce v0) ?q ?tx = (s3, e3, i3)"
        by (cases "handleFinality c s2 a (vote_nonce v0) ?q ?tx") auto
      from "2.prems" processCertificate_bot[OF Cons _ True] ov hf
      have "s' = s2 \<or> s' = s3" by (cases e2) auto
      with fin[OF hf] r1 show ?thesis by (auto intro: trans)
    next
      case False
      let ?s1 = "afterAdvance c s a ?votes"
      have r1: "R s ?s1" unfolding afterAdvance_def by (auto simp: rfl intro: adv)
      obtain s3 e3 i3 where hf: "handleFinality c ?s1 a (vote_nonce v0) ?q ?tx = (s3, e3, i3)"
        by (cases "handleFinality c ?s1 a (vote_nonce v0) ?q ?tx") auto
      from "2.prems" processCertificate_nobot[OF Cons _ False] hf have "s' = s3" by simp
      with fin[OF hf] r1 show ?thesis by (auto intro: trans)
    qed
  qed
qed

lemma handleFinality_error:
  assumes "handleFinality c s a k q tx = (s', Some e, inc)"
  shows "(e = DecodeError \<or> e = TypeError) \<and> s' = s"
  using assms
  by (auto simp: handleFinality_def Let_def split: option.splits sum.splits if_splits
           dest: getTxChainStart_error executeTransfer_error)

lemma onVote_processCertificate_error:
  shows "onVote c s vote = (s', out, Some e) \<Longrightarrow> e = InvalidVote \<or> e = DecodeError \<or> e = TypeError"
    and "processCertificate c s a k = (s', out, Some e) \<Longrightarrow> e = InvalidVote \<or> e = DecodeError \<or> e = TypeError"
proof (induction c s vote and c s a k arbitrary: s' out e and s' out e
       rule: onVote_processCertificate.induct)
  case (1 c s vote)
  show ?case
  proof (cases "verifyVote vote (validatorSet c)")
    case False
    with "1.prems" show ?thesis by (simp add: onVote_invalid)
  next
    case v: True
    show ?thesis
    proof (cases "isDuplicate (voteStore s (account vote) (vote_nonce vote)) vote")
      case True
      with v "1.prems" show ?thesis by (simp add: onVote_duplicate)
    next
      case False
      show ?thesis
      proof (cases "triggers c s vote")
        case True
        with v False "1.prems"
        have pc: "processCertificate c (pushVote s vote) (account vote) (vote_nonce vote) = (s', out, Some e)"
          by (simp add: onVote_stored)
        from v have c1: "\<not> \<not> verifyVote vote (validatorSet c)" by simp
        from True have c3: "vote_nonce vote = nonce (getAccount (pushVote s vote) (account vote))
              \<and> int (length (voteStore (pushVote s vote) (account vote) (vote_nonce vote)))
                   \<ge> FINALITY_QUORUM c" unfolding triggers_def .
        show ?thesis by (rule "1.IH"[OF c1 False c3 pc])
      next
        case f: False
        with v False "1.prems" show ?thesis by (simp add: onVote_stored)
      qed
    qed
  qed
next
  case (2 c s a k)
  show ?case
  proof (cases "voteStore s a k")
    case Nil
    with "2.prems" show ?thesis by (simp add: processCertificate_empty)
  next
    case (Cons v0 vs)
    let ?votes = "v0 # vs"
    let ?q = "fst (getMaxQuorumCert ?votes)"
    let ?tx = "snd (getMaxQuorumCert ?votes)"
    let ?bot = "signVote c (account v0) (vote_nonce v0) None"
    let ?sp = "setAccount s a ((getAccount s a)\<lparr>pending := True\<rparr>)"
    show ?thesis
    proof (cases "castsBot c s a ?votes")
      case True
      obtain s2 out2 e2 where ov: "onVote c ?sp ?bot = (s2, out2, e2)" by (cases "onVote c ?sp ?bot") auto
      obtain s3 e3 i3 where hf: "handleFinality c s2 a (vote_nonce v0) ?q ?tx = (s3, e3, i3)"
        by (cases "handleFinality c s2 a (vote_nonce v0) ?q ?tx") auto
      show ?thesis
      proof (cases e2)
        case None
        with "2.prems" processCertificate_bot[OF Cons _ True] ov hf have "e3 = Some e" by simp
        with hf handleFinality_error show ?thesis by blast
      next
        case (Some x)
        with "2.prems" processCertificate_bot[OF Cons _ True] ov have "x = e" by simp
        with ov Some have ov': "onVote c ?sp ?bot = (s2, out2, Some e)" by simp
        from True Cons show ?thesis
          by (intro "2.IH"[OF Cons _ _ _ ov']) (simp_all add: castsBot_def)
      qed
    next
      case False
      let ?s1 = "afterAdvance c s a ?votes"
      obtain s3 e3 i3 where hf: "handleFinality c ?s1 a (vote_nonce v0) ?q ?tx = (s3, e3, i3)"
        by (cases "handleFinality c ?s1 a (vote_nonce v0) ?q ?tx") auto
      from "2.prems" processCertificate_nobot[OF Cons _ False] hf have "e3 = Some e" by simp
      with hf handleFinality_error show ?thesis by blast
    qed
  qed
qed

lemma onVote_evolves: "onVote c s vote = (s', out, e) \<Longrightarrow> evolves s s'"
  by (rule onVote_processCertificate_rel(1)[where R = evolves])
     (auto intro: evolves_trans evolves_advance handleFinality_evolves)

lemma onTransaction_admitted:
  assumes "Transaction_from b = Inr tx" "tx_from tx = Some sender"
    and "\<not> pending (getAccount s sender)" "nonce (getAccount s sender) = tx_nonce tx"
    and "tx_to tx = Some recipient"
    and "(if recipient = RECOVERY_CONTRACT then validateRecovery c s tx else validatePayment s tx) = None"
  shows "onTransaction c s b =
     (case onVote c (setAccount s sender ((getAccount s sender)\<lparr>pending := True\<rparr>))
             (signVote c sender (tx_nonce tx) (Some tx)) of
        (s2, out, Some e) \<Rightarrow> (s2, out, Inl e)
      | (s2, out, None) \<Rightarrow>
          (s2, out @ [signVote c sender (tx_nonce tx) (Some tx)],
           Inr (signVote c sender (tx_nonce tx) (Some tx))))"
  using assms by (simp add: onTransaction_def)

lemma admitsE:
  assumes "admits c s b"
  obtains tx sender recipient where "Transaction_from b = Inr tx" "tx_from tx = Some sender"
    and "\<not> pending (getAccount s sender)" "nonce (getAccount s sender) = tx_nonce tx"
    and "tx_to tx = Some recipient"
    and "(if recipient = RECOVERY_CONTRACT then validateRecovery c s tx else validatePayment s tx) = None"
  using assms unfolding admits_def by (auto split: sum.splits option.splits)

lemma intermediateBots_error:
  "intermediateBots c s sender k m = Some e \<Longrightarrow> rejection e"
  by (induction c s sender k m rule: intermediateBots.induct)
     (subst (asm) intermediateBots.simps, auto split: if_splits)

lemma validateRecovery_error: "validateRecovery c s tx = Some e \<Longrightarrow> tx_from tx \<noteq> None \<Longrightarrow> rejection e"
  by (auto simp: validateRecovery_def split: bytes.splits option.splits if_splits
           dest: intermediateBots_error)

lemma validatePayment_error: "validatePayment s tx = Some e \<Longrightarrow> tx_from tx \<noteq> None \<Longrightarrow> rejection e"
  by (auto simp: validatePayment_def split: option.splits if_splits)

lemma onTransaction_rejected:
  assumes "\<not> admits c s b"
  shows "\<exists>e. onTransaction c s b = (s, [], Inl e) \<and> (rejection e \<or> e = DecodeError \<or> e = TypeError)"
proof (cases "Transaction_from b")
  case (Inl e)
  then have "e = DecodeError" by (cases b) auto
  with Inl show ?thesis by (simp add: onTransaction_def)
next
  case (Inr tx)
  show ?thesis
  proof (cases "tx_from tx")
    case None
    with Inr show ?thesis by (simp add: onTransaction_def)
  next
    case (Some sender)
    show ?thesis
    proof (cases "pending (getAccount s sender) \<or> tx_nonce tx \<noteq> nonce (getAccount s sender)")
      case True
      with Inr Some show ?thesis by (auto simp: onTransaction_def)
    next
      case False
      show ?thesis
      proof (cases "tx_to tx")
        case None
        with False Inr Some show ?thesis by (auto simp: onTransaction_def)
      next
        case to: (Some recipient)
        with False assms Inr Some obtain e where
          e: "(if recipient = RECOVERY_CONTRACT then validateRecovery c s tx else validatePayment s tx) = Some e"
          by (auto simp: admits_def)
        then have "rejection e" using Some
          by (auto split: if_splits dest: validateRecovery_error validatePayment_error)
        with e to False Inr Some show ?thesis by (auto simp: onTransaction_def)
      qed
    qed
  qed
qed

lemma onTransaction_evolves:
  assumes "onTransaction c s b = (s', out, r)"
  shows "evolves s s'"
proof (cases "admits c s b")
  case False
  with onTransaction_rejected[OF False] assms show ?thesis by auto
next
  case True
  then obtain tx sender recipient where a: "Transaction_from b = Inr tx" "tx_from tx = Some sender"
    "\<not> pending (getAccount s sender)" "nonce (getAccount s sender) = tx_nonce tx"
    "tx_to tx = Some recipient"
    "(if recipient = RECOVERY_CONTRACT then validateRecovery c s tx else validatePayment s tx) = None"
    by (rule admitsE)
  let ?sp = "setAccount s sender ((getAccount s sender)\<lparr>pending := True\<rparr>)"
  let ?v = "signVote c sender (tx_nonce tx) (Some tx)"
  obtain s2 out2 e2 where ov: "onVote c ?sp ?v = (s2, out2, e2)" by (cases "onVote c ?sp ?v") auto
  with assms onTransaction_admitted[OF a] have "s' = s2" by (cases e2) auto
  with onVote_evolves[OF ov] show ?thesis
    by (auto intro: evolves_trans[OF evolves_pending])
qed

lemma step_evolves: "evolves s (step c s i)"
proof (cases i)
  case (OnTransaction b)
  then show ?thesis using onTransaction_evolves[of c s b] by (cases "onTransaction c s b") auto
next
  case (OnVote v)
  then show ?thesis using onVote_evolves[of c s v] by (cases "onVote c s v") auto
qed

lemma run_evolves: "evolves s (run c s inputs)"
proof (induction inputs rule: rev_induct)
  case Nil
  then show ?case by (simp add: run_def)
next
  case (snoc i inputs)
  have "run c s (inputs @ [i]) = step c (run c s inputs) i" by (simp add: run_def)
  with snoc step_evolves[of "run c s inputs" c i] show ?case by (auto intro: evolves_trans)
qed

lemma accounts_newValidatorCore:
  "finalised (accounts (newValidatorCore g) a) = -1 \<and> nonce (accounts (newValidatorCore g) a) = 0
   \<and> \<not> pending (accounts (newValidatorCore g) a)"
proof -
  have "\<And>m. (\<forall>a. finalised (m a) = -1 \<and> nonce (m a) = 0 \<and> \<not> pending (m a)) \<Longrightarrow>
         (\<forall>a. finalised (foldl (\<lambda>m (a, b). m(a := defaultAccount\<lparr>balance := b\<rparr>)) m g a) = -1
            \<and> nonce (foldl (\<lambda>m (a, b). m(a := defaultAccount\<lparr>balance := b\<rparr>)) m g a) = 0
            \<and> \<not> pending (foldl (\<lambda>m (a, b). m(a := defaultAccount\<lparr>balance := b\<rparr>)) m g a))"
  proof (induction g)
    case Nil
    then show ?case by simp
  next
    case (Cons x g)
    show ?case
      by (simp only: foldl_Cons, rule Cons.IH) (auto simp: Cons.prems defaultAccount_def split: prod.splits)
  qed
  from this[of "\<lambda>_. defaultAccount"] show ?thesis
    by (simp add: newValidatorCore_def defaultAccount_def)
qed

text \<open>
  C5: from the state the constructor builds (every account at nonce 0 and finalised -1),
  after any sequence of onTransaction and onVote calls (caught exceptions included) and
  for the next call whatever it is: the nonce of every account does not decrease, its
  finalised does not decrease, and finalised < nonce holds before and after the call.
\<close>

theorem nonce_finalised_monotone:
  "nonce (accounts (run c (newValidatorCore g) inputs) a)
     \<le> nonce (accounts (step c (run c (newValidatorCore g) inputs) i) a)
   \<and> finalised (accounts (run c (newValidatorCore g) inputs) a)
     \<le> finalised (accounts (step c (run c (newValidatorCore g) inputs) i) a)
   \<and> finalised (accounts (run c (newValidatorCore g) inputs) a)
     < nonce (accounts (run c (newValidatorCore g) inputs) a)
   \<and> finalised (accounts (step c (run c (newValidatorCore g) inputs) i) a)
     < nonce (accounts (step c (run c (newValidatorCore g) inputs) i) a)"
proof -
  let ?init = "newValidatorCore g"
  let ?s = "run c ?init inputs"
  have 0: "finalised (accounts ?init a) < nonce (accounts ?init a)"
    by (simp add: accounts_newValidatorCore)
  have 1: "evolve (accounts ?init a) (accounts ?s a)" using run_evolves[of ?init c inputs] by (simp add: evolves_def)
  have 2: "evolve (accounts ?s a) (accounts (step c ?s i) a)" using step_evolves[of ?s c i] by (simp add: evolves_def)
  from 0 1 2 show ?thesis unfolding evolve_def by auto
qed

text \<open>
  C4: validateRecovery counts the validator fields of the votes for the tip as they are
  written, and verifyVote accepts a validator field in any case. After the inputs of
  \<open>twoAsThree\<close> the list at nonce 0 of account A holds three verified votes for \<open>tx0\<close>,
  of the validator itself and of v1 under two spellings, and the account has been moved
  to nonce 1 on that count. The recovery transaction at nonce 1 with tip \<open>tx0\<close> is then
  accepted and the validator's vote for it returned, although two validators only have
  voted for the tip, fewer than \<open>n - 3f = 3\<close>.
\<close>

theorem recovery_accepted_on_two_validators:
  "NOTARISATION_QUORUM cfg = 3
   \<and> list_all (\<lambda>v. verifyVote v (validatorSet cfg)) (voteStore (run cfg genesis twoAsThree) ''A'' 0)
   \<and> countQuorum (voteStore (run cfg genesis twoAsThree) ''A'' 0) (tx_hash tx0) = 3
   \<and> distinctSigners (filter (\<lambda>v. voteTxHash v = tx_hash tx0)
                         (voteStore (run cfg genesis twoAsThree) ''A'' 0)) = 2
   \<and> accounts (run cfg genesis twoAsThree) ''A''
       = \<lparr>balance = 1000, nonce = 1, pending = False, finalised = -1\<rparr>
   \<and> snd (snd (onTransaction cfg (run cfg genesis twoAsThree) (Serialized (recoveryOf ''A'' 1 tx0))))
       = Inr (signVote cfg ''A'' 1 (Some (recoveryOf ''A'' 1 tx0)))"
  by code_simp

text \<open>
  C8: when onTransaction throws one of its rejections (invalid signature, pending account,
  nonce mismatch, payment or recovery validation failure) the state is the one before the
  call and nothing was broadcast; and after a call that returned a vote, the same bytes
  are rejected with Pending or NonceMismatch, again with the state unchanged.
\<close>

theorem rejected_transaction_atomic:
  "(onTransaction c s b = (s', out, Inl e) \<and> rejection e \<longrightarrow> s' = s \<and> out = [])
   \<and> (onTransaction c s b = (s1, out1, Inr v) \<longrightarrow>
        (\<exists>e'. onTransaction c s1 b = (s1, [], Inl e') \<and> (e' = Pending \<or> e' = NonceMismatch)))"
proof (cases "admits c s b")
  case False
  from onTransaction_rejected[OF False] show ?thesis by auto
next
  case True
  then obtain tx sender recipient where a: "Transaction_from b = Inr tx" "tx_from tx = Some sender"
    "\<not> pending (getAccount s sender)" "nonce (getAccount s sender) = tx_nonce tx"
    "tx_to tx = Some recipient"
    "(if recipient = RECOVERY_CONTRACT then validateRecovery c s tx else validatePayment s tx) = None"
    by (rule admitsE)
  let ?sp = "setAccount s sender ((getAccount s sender)\<lparr>pending := True\<rparr>)"
  let ?v = "signVote c sender (tx_nonce tx) (Some tx)"
  obtain s2 out2 e2 where ov: "onVote c ?sp ?v = (s2, out2, e2)" by (cases "onVote c ?sp ?v") auto
  note eq = onTransaction_admitted[OF a]
  have 1: "onTransaction c s b = (s', out, Inl e) \<and> rejection e \<longrightarrow> s' = s \<and> out = []"
  proof (intro impI, elim conjE)
    assume t: "onTransaction c s b = (s', out, Inl e)" and r: "rejection e"
    from t eq ov have "e2 = Some e" by (cases e2) auto
    with ov onVote_processCertificate_error(1) have "e = InvalidVote \<or> e = DecodeError \<or> e = TypeError"
      by blast
    with r show "s' = s \<and> out = []" by auto
  qed
  have 2: "onTransaction c s b = (s1, out1, Inr v) \<longrightarrow>
        (\<exists>e'. onTransaction c s1 b = (s1, [], Inl e') \<and> (e' = Pending \<or> e' = NonceMismatch))"
  proof
    assume t: "onTransaction c s b = (s1, out1, Inr v)"
    from t eq ov have s1: "s1 = s2" by (cases e2) auto
    from onVote_evolves[OF ov] have "evolve (accounts ?sp sender) (accounts s1 sender)"
      by (simp add: evolves_def s1)
    with a have "pending (getAccount s1 sender) \<or> tx_nonce tx \<noteq> nonce (getAccount s1 sender)"
      by (auto simp: evolve_def accounts_setAccount getAccount_def)
    with a show "\<exists>e'. onTransaction c s1 b = (s1, [], Inl e') \<and> (e' = Pending \<or> e' = NonceMismatch)"
      by (auto simp: onTransaction_def)
  qed
  from 1 2 show ?thesis by blast
qed

theorem rejected_transaction_atomic_witness:
  "onTransaction cfg genesis (Serialized (pay ''A'' ''B'' 2000 0)) = (genesis, [], Inl InsufficientBalance)
   \<and> snd (snd (onTransaction cfg genesis (Serialized tx0))) = Inr (signVote cfg ''A'' 0 (Some tx0))
   \<and> (\<exists>e'. onTransaction cfg (fst (onTransaction cfg genesis (Serialized tx0))) (Serialized tx0)
            = (fst (onTransaction cfg genesis (Serialized tx0)), [], Inl e')
          \<and> (e' = Pending \<or> e' = NonceMismatch))"
proof -
  let ?bad = "Serialized (pay ''A'' ''B'' 2000 0)"
  let ?ok = "Serialized tx0"
  have r: "snd (snd (onTransaction cfg genesis ?bad)) = Inl InsufficientBalance" by code_simp
  then have rb: "onTransaction cfg genesis ?bad
      = (fst (onTransaction cfg genesis ?bad), fst (snd (onTransaction cfg genesis ?bad)), Inl InsufficientBalance)"
    by (metis prod.collapse)
  have v: "snd (snd (onTransaction cfg genesis ?ok)) = Inr (signVote cfg ''A'' 0 (Some tx0))" by code_simp
  then have vb: "onTransaction cfg genesis ?ok
      = (fst (onTransaction cfg genesis ?ok), fst (snd (onTransaction cfg genesis ?ok)),
         Inr (signVote cfg ''A'' 0 (Some tx0)))"
    by (metis prod.collapse)
  from rejected_transaction_atomic[of cfg genesis ?bad "fst (onTransaction cfg genesis ?bad)"
        "fst (snd (onTransaction cfg genesis ?bad))" InsufficientBalance] rb
  have 1: "onTransaction cfg genesis ?bad = (genesis, [], Inl InsufficientBalance)" by simp
  from rejected_transaction_atomic[of cfg genesis ?ok _ _ _ "fst (onTransaction cfg genesis ?ok)"
        "fst (snd (onTransaction cfg genesis ?ok))" "signVote cfg ''A'' 0 (Some tx0)"] vb
  have 2: "\<exists>e'. onTransaction cfg (fst (onTransaction cfg genesis ?ok)) ?ok
            = (fst (onTransaction cfg genesis ?ok), [], Inl e') \<and> (e' = Pending \<or> e' = NonceMismatch)"
    by blast
  from 1 v 2 show ?thesis by blast
qed

text \<open>
  C7: the deduplication of onVote compares validator fields as they are written, and
  verifyVote accepts a validator field in any case. Validator v1 votes for \<open>tx0\<close>, for
  another payment of A at the same nonce, and twice for bottom, writing its address in
  upper case in every second vote: all four votes verify, none is dropped, and the list
  at nonce 0 of account A holds two votes with a transaction payload and two bottom
  votes, all of the one validator v1.
\<close>

theorem respelled_votes_stored_twice:
  "list_all (\<lambda>i. case i of OnVote v \<Rightarrow> verifyVote v (validatorSet cfg) | OnTransaction b \<Rightarrow> False) fourOfOne
   \<and> map OnVote (voteStore (run cfg genesis fourOfOne) ''A'' 0) = fourOfOne
   \<and> length (filter (\<lambda>v. serializedTx v \<noteq> None) (voteStore (run cfg genesis fourOfOne) ''A'' 0)) = 2
   \<and> length (filter (\<lambda>v. serializedTx v = None) (voteStore (run cfg genesis fourOfOne) ''A'' 0)) = 2
   \<and> distinctSigners (voteStore (run cfg genesis fourOfOne) ''A'' 0) = 1"
  by code_simp

lemma votesByTx_snoc: "votesByTx (vs @ [v]) = addVote (votesByTx vs) v"
  by (simp add: votesByTx_def)

lemma votesByTx_groups:
  "fst ` set (votesByTx vs) = voteTxHash ` set vs
   \<and> (\<forall>g \<in> set (votesByTx vs). snd g = filter (\<lambda>v. voteTxHash v = fst g) vs)"
proof (induction vs rule: rev_induct)
  case Nil
  then show ?case by (simp add: votesByTx_def)
next
  case (snoc v vs)
  let ?G = "votesByTx vs"
  from snoc have keys: "fst ` set ?G = voteTxHash ` set vs"
    and grp: "\<And>g. g \<in> set ?G \<Longrightarrow> snd g = filter (\<lambda>u. voteTxHash u = fst g) vs" by auto
  show ?case
  proof (cases "voteTxHash v \<in> fst ` set ?G")
    case True
    then have eq: "addVote ?G v = map (\<lambda>(key, txVotes). if key = voteTxHash v then (key, txVotes @ [v])
                                  else (key, txVotes)) ?G"
      by (simp add: addVote_def)
    let ?f = "\<lambda>g. if fst g = voteTxHash v then (fst g, snd g @ [v]) else g"
    have eq': "addVote ?G v = map ?f ?G"
      unfolding eq by (rule map_cong) (auto split: prod.splits)
    have ff: "\<And>g. fst (?f g) = fst g" by simp
    have "fst ` set (addVote ?G v) = (\<lambda>g. fst (?f g)) ` set ?G"
      unfolding eq' set_map image_image ..
    also have "\<dots> = fst ` set ?G" by (rule image_cong) (simp_all only: ff)
    finally have "fst ` set (addVote ?G v) = fst ` set ?G" .
    with True keys have 1: "fst ` set (addVote ?G v) = voteTxHash ` set (vs @ [v])"
      by auto
    have 2: "\<forall>g \<in> set (addVote ?G v). snd g = filter (\<lambda>u. voteTxHash u = fst g) (vs @ [v])"
    proof
      fix g assume "g \<in> set (addVote ?G v)"
      then have "g \<in> ?f ` set ?G" unfolding eq' set_map .
      then obtain g0 where g0: "g0 \<in> set ?G" "g = ?f g0" by (rule imageE)
      from grp[OF g0(1)] g0(2) show "snd g = filter (\<lambda>u. voteTxHash u = fst g) (vs @ [v])"
        by (cases "fst g0 = voteTxHash v") auto
    qed
    from 1 2 show ?thesis by (simp add: votesByTx_snoc)
  next
    case False
    then have eq: "addVote ?G v = ?G @ [(voteTxHash v, [v])]" by (simp add: addVote_def)
    from False keys have "voteTxHash v \<notin> voteTxHash ` set vs" by simp
    then have none: "filter (\<lambda>u. voteTxHash u = voteTxHash v) vs = []"
      by (metis (mono_tags, lifting) filter_empty_conv image_eqI)
    have 1: "fst ` set (addVote ?G v) = voteTxHash ` set (vs @ [v])"
      using keys by (auto simp: eq)
    have 2: "\<forall>g \<in> set (addVote ?G v). snd g = filter (\<lambda>u. voteTxHash u = fst g) (vs @ [v])"
    proof
      fix g assume "g \<in> set (addVote ?G v)"
      then consider "g \<in> set ?G" | "g = (voteTxHash v, [v])" by (auto simp: eq)
      then show "snd g = filter (\<lambda>u. voteTxHash u = fst g) (vs @ [v])"
      proof cases
        case 1
        with False have "fst g \<noteq> voteTxHash v" by (metis imageI)
        with grp[OF 1] show ?thesis by auto
      next
        case 2
        with none show ?thesis by simp
      qed
    qed
    from 1 2 show ?thesis by (simp add: votesByTx_snoc)
  qed
qed

lemma foldl_maxStep_ge:
  "fst m \<le> fst (foldl maxStep m gs) \<and> (\<forall>g \<in> set gs. distinctValidators (snd g) \<le> fst (foldl maxStep m gs))"
proof (induction gs arbitrary: m)
  case Nil
  then show ?case by simp
next
  case (Cons g gs)
  have "fst m \<le> fst (maxStep m g)" "distinctValidators (snd g) \<le> fst (maxStep m g)"
    by (auto simp: maxStep_def)
  with Cons[of "maxStep m g"] show ?case by (auto intro: order_trans)
qed

lemma foldl_maxStep_attained:
  "foldl maxStep m gs = m \<or> (\<exists>g \<in> set gs. foldl maxStep m gs
       = (distinctValidators (snd g), (case snd g of [] \<Rightarrow> None | v # _ \<Rightarrow> voteTx v)))"
proof (induction gs arbitrary: m)
  case Nil
  then show ?case by simp
next
  case (Cons g gs)
  from Cons[of "maxStep m g"] show ?case by (auto simp: maxStep_def split: if_splits)
qed

lemma countQuorum_votesByTx:
  "g \<in> set (votesByTx vs) \<Longrightarrow> distinctValidators (snd g) = countQuorum vs (fst g)"
  using votesByTx_groups[of vs] by (simp add: countQuorum_def)

lemma countQuorum_absent:
  "h \<notin> voteTxHash ` set vs \<Longrightarrow> countQuorum vs h = 0"
proof -
  assume "h \<notin> voteTxHash ` set vs"
  then have "filter (\<lambda>v. voteTxHash v = h) vs = []" by (auto simp: filter_empty_conv)
  then show ?thesis by (simp add: countQuorum_def distinctValidators_def)
qed

text \<open>The quorum evaluator returns the maximum per-payload distinct-validator count.\<close>

lemma getMaxQuorumCert_max:
  "(\<forall>h. countQuorum vs h \<le> fst (getMaxQuorumCert vs)) \<and> (\<exists>h. fst (getMaxQuorumCert vs) = countQuorum vs h)"
proof
  show "\<forall>h. countQuorum vs h \<le> fst (getMaxQuorumCert vs)"
  proof
    fix h
    show "countQuorum vs h \<le> fst (getMaxQuorumCert vs)"
    proof (cases "h \<in> voteTxHash ` set vs")
      case False
      then show ?thesis by (simp add: countQuorum_absent)
    next
      case True
      with votesByTx_groups[of vs] have "h \<in> fst ` set (votesByTx vs)" by simp
      then obtain g where g: "g \<in> set (votesByTx vs)" "fst g = h" by (metis imageE)
      with foldl_maxStep_ge[of "(0, None)" "votesByTx vs"] countQuorum_votesByTx[OF g(1)]
      show ?thesis by (auto simp: getMaxQuorumCert_def)
    qed
  qed
next
  from foldl_maxStep_attained[of "(0, None)" "votesByTx vs"]
  show "\<exists>h. fst (getMaxQuorumCert vs) = countQuorum vs h"
  proof
    assume "foldl maxStep (0, None) (votesByTx vs) = (0, None)"
    then have z: "fst (getMaxQuorumCert vs) = 0" by (simp add: getMaxQuorumCert_def)
    show ?thesis
    proof (cases vs)
      case Nil
      with z show ?thesis by (simp add: countQuorum_def distinctValidators_def)
    next
      case (Cons v vs')
      with votesByTx_groups[of vs] obtain g where g: "g \<in> set (votesByTx vs)" by fastforce
      with foldl_maxStep_ge[of "(0, None)" "votesByTx vs"] z countQuorum_votesByTx[OF g]
      have "countQuorum vs (fst g) = 0" by (auto simp: getMaxQuorumCert_def)
      with z show ?thesis by metis
    qed
  next
    assume "\<exists>g \<in> set (votesByTx vs). foldl maxStep (0, None) (votesByTx vs)
       = (distinctValidators (snd g), (case snd g of [] \<Rightarrow> None | v # _ \<Rightarrow> voteTx v))"
    then obtain g where g: "g \<in> set (votesByTx vs)"
      "fst (getMaxQuorumCert vs) = distinctValidators (snd g)"
      by (auto simp: getMaxQuorumCert_def)
    with countQuorum_votesByTx[OF g(1)] show ?thesis by auto
  qed
qed

text \<open>
  C10: the classic onVote deduplicates on the validator field as written and its quorum
  evaluator counts those fields, while verifyVote accepts a validator field in any case.
  Account A is pending at nonce 0 after the validator's own vote for \<open>tx0\<close>. The votes
  of v1 and v2 for \<open>tx0\<close> then arrive, each in two spellings. In every state the core
  passes through, three validators at most have voted at nonce 0, fewer than
  \<open>n - f = 5\<close>; yet the fourth vote executes \<open>tx0\<close>, clears pending and moves the
  account to nonce 1.
\<close>

theorem classic_lock_released_by_three_validators:
  "locked classicLocked ''A'' 0
   \<and> FINALITY_QUORUM cfg = 5
   \<and> list_all (\<lambda>i. case i of OnVote v \<Rightarrow> verifyVote v (validatorSet cfg) | OnTransaction b \<Rightarrow> False) twiceEach
   \<and> list_all (\<lambda>s'. distinctSigners (voteStore s' ''A'' 0) \<le> 3)
        (classic_trace cfg classicLocked twiceEach)
   \<and> accounts (last (classic_trace cfg classicLocked twiceEach)) ''A''
       = \<lparr>balance = 900, nonce = 1, pending = False, finalised = 0\<rparr>"
  by code_simp

lemma finalisedAt_block:
  assumes "finalised (accounts s1 a) = finalised (accounts s a)"
    and "nonce (accounts s1 a) = nonce (accounts s a)"
    and "pending (accounts s1 a) = pending (accounts s a)"
    and "\<And>b. nonce (accounts s1 b) = nonce (accounts s b)
            \<and> pending (accounts s1 b) = pending (accounts s b)
            \<and> finalised (accounts s1 b) = finalised (accounts s b)"
    and "voteStore s1 = voteStore s"
    and "s2 = setAccount s1 a ((getAccount s1 a)\<lparr>finalised := k\<rparr>)"
    and "s' = (if k \<ge> nonce (getAccount s2 a)
               then setAccount s2 a ((getAccount s2 a)\<lparr>nonce := k + 1, pending := False\<rparr>) else s2)"
  shows "finalisedAt s s' a k"
  using assms by (auto simp: finalisedAt_def accounts_setAccount getAccount_def)

text \<open>
  C1 (amended): in the finality block, for a quorum of at least \<open>n - f\<close> on a non-bottom
  payload at a nonce \<open>k\<close> above \<open>finalised\<close>, with \<open>orig\<close> the chain start of the
  payload: if \<open>orig.nonce = finalised + 1\<close> (and \<open>orig\<close> is signed) the transfer is
  applied and finalised becomes \<open>k\<close>; if \<open>orig.nonce = finalised\<close> finalised becomes
  \<open>k\<close> and no balance changes; any other \<open>orig.nonce\<close> leaves the state as it is and
  throws nothing. Whenever finalised becomes \<open>k\<close>: if \<open>k\<close> is at or above the account's
  nonce, the nonce becomes \<open>k + 1\<close> and pending is cleared; if \<open>k\<close> is below it, nonce
  and pending are left as they are.
\<close>

theorem finality_execute:
  assumes q: "FINALITY_QUORUM c \<le> int quorum"
    and k: "finalised (accounts s a) < k"
    and orig: "getTxChainStart t = Inr orig"
    and hf: "handleFinality c s a k quorum (Some t) = (s', e, inc)"
  shows "(tx_nonce orig = finalised (accounts s a) + 1 \<and> tx_from orig \<noteq> None \<longrightarrow>
            e = None \<and> transferred s s' orig \<and> finalisedAt s s' a k)
       \<and> (tx_nonce orig = finalised (accounts s a) \<longrightarrow>
            e = None \<and> (\<forall>b. balance (accounts s' b) = balance (accounts s b)) \<and> finalisedAt s s' a k)
       \<and> (tx_nonce orig \<noteq> finalised (accounts s a) \<and> tx_nonce orig \<noteq> finalised (accounts s a) + 1 \<longrightarrow>
            e = None \<and> s' = s)"
proof -
  have other: "tx_nonce orig \<noteq> finalised (accounts s a) \<and> tx_nonce orig \<noteq> finalised (accounts s a) + 1
      \<longrightarrow> e = None \<and> s' = s"
    using q k orig hf by (auto simp: handleFinality_def getAccount_def)
  have same: "e = None \<and> (\<forall>b. balance (accounts s' b) = balance (accounts s b)) \<and> finalisedAt s s' a k"
    if n: "tx_nonce orig = finalised (accounts s a)"
  proof -
  let ?s2 = "setAccount s a ((getAccount s a)\<lparr>finalised := k\<rparr>)"
  from q k orig hf n have e: "e = None"
    and s': "s' = (if k \<ge> nonce (getAccount ?s2 a)
               then setAccount ?s2 a ((getAccount ?s2 a)\<lparr>nonce := k + 1, pending := False\<rparr>) else ?s2)"
    by (auto simp: handleFinality_def getAccount_def Let_def split: if_splits)
  have f: "finalisedAt s s' a k"
    by (rule finalisedAt_block[where ?s1.0 = s and ?s2.0 = ?s2]) (simp_all add: s')
  from s' have "\<forall>b. balance (accounts s' b) = balance (accounts s b)"
    by (auto simp: accounts_setAccount getAccount_def)
  with e f show ?thesis by simp
  qed
  have next1: "e = None \<and> transferred s s' orig \<and> finalisedAt s s' a k"
    if n: "tx_nonce orig = finalised (accounts s a) + 1" and sg: "tx_from orig \<noteq> None"
  proof -
  from sg getTxChainStart_to[OF orig] obtain s1 where ex: "executeTransfer s orig = Inr s1"
    using executeTransfer_defined by blast
  let ?s2 = "setAccount s1 a ((getAccount s1 a)\<lparr>finalised := k\<rparr>)"
  from q k orig hf n ex have e: "e = None"
    and s': "s' = (if k \<ge> nonce (getAccount ?s2 a)
               then setAccount ?s2 a ((getAccount ?s2 a)\<lparr>nonce := k + 1, pending := False\<rparr>) else ?s2)"
    by (auto simp: handleFinality_def getAccount_def Let_def split: if_splits)
  note fl = executeTransfer_fields[OF ex]
  have f: "finalisedAt s s' a k"
    by (rule finalisedAt_block[where ?s1.0 = s1 and ?s2.0 = ?s2]) (simp_all add: s' fl)
  from executeTransfer_accounts[OF ex] obtain sender where
    sn: "tx_from orig = Some sender"
    and ac: "\<And>b. accounts s1 b = (accounts s b)\<lparr>balance := balance (accounts s b)
                     - (if b = sender then int (tx_value orig) else 0)
                     + (if Some b = tx_to orig then int (tx_value orig) else 0)\<rparr>"
    by blast
  have "transferred s s' orig"
    unfolding transferred_def
  proof
    fix b
    have "balance (accounts s' b) = balance (accounts s1 b)"
      by (auto simp: s' accounts_setAccount getAccount_def)
    then show "balance (accounts s' b) =
            balance (accounts s b) - (if Some b = tx_from orig then int (tx_value orig) else 0)
                                   + (if Some b = tx_to orig then int (tx_value orig) else 0)"
      by (auto simp: ac sn)
  qed
  with e f show ?thesis by simp
  qed
  from other same next1 show ?thesis by blast
qed

theorem finality_execute_witness:
  "transferred genesis (fst (handleFinality cfg genesis ''A'' 0 5 (Some tx0))) tx0
   \<and> finalisedAt genesis (fst (handleFinality cfg genesis ''A'' 0 5 (Some tx0))) ''A'' 0
   \<and> balance (accounts (fst (handleFinality cfg genesis ''A'' 0 5 (Some tx0))) ''A'') = 900
   \<and> fst (snd (handleFinality cfg genesis ''A'' 0 5 (Some tx0))) = None"
proof -
  let ?r = "handleFinality cfg genesis ''A'' 0 5 (Some tx0)"
  have q: "FINALITY_QUORUM cfg \<le> int 5" by code_simp
  have k: "finalised (accounts genesis ''A'') < 0" by code_simp
  have orig: "getTxChainStart tx0 = Inr tx0" by code_simp
  have hf: "?r = (fst ?r, fst (snd ?r), snd (snd ?r))" by simp
  have n: "tx_nonce tx0 = finalised (accounts genesis ''A'') + 1" by code_simp
  have sg: "tx_from tx0 \<noteq> None" by code_simp
  have b: "balance (accounts genesis ''A'') = 1000" by code_simp
  have t: "Some ''A'' = tx_from tx0" "Some ''A'' \<noteq> tx_to tx0" "tx_value tx0 = 100" by code_simp+
  from finality_execute[OF q k orig hf] n sg
  have 1: "fst (snd ?r) = None" and 2: "transferred genesis (fst ?r) tx0"
    and 3: "finalisedAt genesis (fst ?r) ''A'' 0" by blast+
  from 2 have "balance (accounts (fst ?r) ''A'') =
      balance (accounts genesis ''A'') - (if Some ''A'' = tx_from tx0 then int (tx_value tx0) else 0)
        + (if Some ''A'' = tx_to tx0 then int (tx_value tx0) else 0)"
    unfolding transferred_def by blast
  with b t have "balance (accounts (fst ?r) ''A'') = 900" by simp
  with 1 2 3 show ?thesis by simp
qed

text \<open>
  C1 (as stated): whenever finalised advances to the nonce, pending is cleared. In the
  second copy of the core, account A is pending at nonce 2 with finalised 0; the fifth
  vote for \<open>tx1\<close> at nonce 1 then arrives. The quorum at nonce 1 is 5 for \<open>tx1\<close>, whose
  nonce is finalised + 1: the transfer is applied and finalised becomes 1, and the account
  stays at nonce 2 with pending still set.
\<close>

theorem finality_pending_counterexample:
  "accounts lateFinality ''A'' = \<lparr>balance = 900, nonce = 2, pending = True, finalised = 0\<rparr>
   \<and> getMaxQuorumCert (voteStore (fst (onVote2 10 cfg lateFinality (peerVote ''v4'' ''A'' 1 (Some tx1)))) ''A'' 1)
       = (5, Some tx1)
   \<and> snd (snd (onVote2 10 cfg lateFinality (peerVote ''v4'' ''A'' 1 (Some tx1)))) = None
   \<and> accounts (fst (onVote2 10 cfg lateFinality (peerVote ''v4'' ''A'' 1 (Some tx1)))) ''A''
       = \<lparr>balance = 700, nonce = 2, pending = True, finalised = 1\<rparr>"
  by code_simp







lemma handleFinality_below:
  "\<not> FINALITY_QUORUM c \<le> int q \<Longrightarrow> handleFinality c s a k q tx = (s, None, False)"
  by (simp add: handleFinality_def split: option.splits)

lemma quorum_le: "NOTARISATION_QUORUM c \<le> FINALITY_QUORUM c"
  by (simp add: NOTARISATION_QUORUM_def FINALITY_QUORUM_def)

lemma balance_afterAdvance [simp]:
  "balance (accounts (afterAdvance c s a votes) b) = balance (accounts s b)"
  by (simp add: afterAdvance_def accounts_setAccount getAccount_def)

lemma finalised_afterAdvance [simp]:
  "finalised (accounts (afterAdvance c s a votes) b) = finalised (accounts s b)"
  by (simp add: afterAdvance_def accounts_setAccount getAccount_def)


















text \<open>
  C2: the code gates the bottom vote on the number of stored votes, not on the number of
  distinct validators. After the four votes of v1, v2 and v3, a vote of v4 for a fourth
  transaction arrives: the list then holds five votes of four validators (fewer than
  \<open>n - f = 5\<close>), the maximum per-payload count is 1 (below \<open>n - 3f = 3\<close>), and both
  copies of the core set pending and sign, store and broadcast a bottom vote.
\<close>

theorem bottom_vote_cast_on_vote_count:
  "length (voteStore (run cfg genesis fourVotesOfThree) ''A'' 0) = 4
   \<and> distinctValidators (voteStore (run cfg genesis fourVotesOfThree) ''A'' 0
                           @ [peerVote ''v4'' ''A'' 0 (Some (pay ''A'' ''B'' 4 0))]) = 4
   \<and> fst (getMaxQuorumCert (voteStore (run cfg genesis fourVotesOfThree) ''A'' 0
                              @ [peerVote ''v4'' ''A'' 0 (Some (pay ''A'' ''B'' 4 0))])) = 1
   \<and> FINALITY_QUORUM cfg = 5
   \<and> snd (onVote cfg (run cfg genesis fourVotesOfThree)
                (peerVote ''v4'' ''A'' 0 (Some (pay ''A'' ''B'' 4 0))))
       = ([signVote cfg ''A'' 0 None], None)
   \<and> accounts (fst (onVote cfg (run cfg genesis fourVotesOfThree)
                (peerVote ''v4'' ''A'' 0 (Some (pay ''A'' ''B'' 4 0))))) ''A''
       = \<lparr>balance = 1000, nonce = 0, pending = True, finalised = -1\<rparr>
   \<and> hasBot cfg (voteStore (fst (onVote cfg (run cfg genesis fourVotesOfThree)
                (peerVote ''v4'' ''A'' 0 (Some (pay ''A'' ''B'' 4 0))))) ''A'' 0)
   \<and> snd (onVote2 10 cfg (run2 10 cfg genesis fourVotesOfThree)
                (peerVote ''v4'' ''A'' 0 (Some (pay ''A'' ''B'' 4 0))))
       = ([signVote cfg ''A'' 0 None], None)"
  by code_simp

text \<open>
  C3: validator-core.ts has no re-entry. Five votes for \<open>tx1\<close> at nonce 1 are stored
  while the account is at nonce 0; the fifth vote for \<open>tx0\<close> then finalises nonce 0 and
  moves the account to nonce 1, where it stays, with the finality quorum for \<open>tx1\<close>
  unprocessed in the store. The second copy (client.ts) re-runs the processor and
  finalises nonce 1 in the same call.
\<close>

theorem no_reentry_in_validator_core:
  "fst (getMaxQuorumCert (voteStore (run cfg genesis outOfOrder) ''A'' 1)) = 5
   \<and> accounts (run cfg genesis outOfOrder) ''A''
       = \<lparr>balance = 900, nonce = 1, pending = False, finalised = 0\<rparr>
   \<and> accounts (run2 10 cfg genesis outOfOrder) ''A''
       = \<lparr>balance = 700, nonce = 2, pending = False, finalised = 1\<rparr>"
  by code_simp

lemma finalityThenReentry_below:
  "\<not> FINALITY_QUORUM c \<le> int q \<Longrightarrow>
     finalityThenReentry again c a k q tx s1 out False = (s1, out, None)"
  by (simp add: finalityThenReentry_def handleFinality_below)

lemma handleFinality_advance:
  assumes hf: "handleFinality c s a k q tx = (s', e, inc)"
  shows "(s' = s \<and> \<not> inc)
       \<or> (inc = (nonce (getAccount s a) \<le> k)
           \<and> nonce (getAccount s' a) = (if inc then k + 1 else nonce (getAccount s a)))"
proof (cases tx)
  case None
  with hf show ?thesis by (simp add: handleFinality_def)
next
  case (Some t)
  show ?thesis
  proof (cases "getTxChainStart t")
    case (Inl err)
    with hf Some show ?thesis by (auto simp: handleFinality_def split: if_splits)
  next
    case (Inr orig)
    show ?thesis
    proof (cases "executeTransfer s orig")
      case (Inl err)
      with hf Some Inr show ?thesis
        by (auto simp: handleFinality_def Let_def accounts_setAccount getAccount_def
                 split: if_splits)
    next
      case exec: (Inr s1)
      note f = executeTransfer_fields[OF exec]
      from hf Some Inr exec show ?thesis
        by (auto simp: handleFinality_def Let_def accounts_setAccount getAccount_def f
                 split: if_splits)
    qed
  qed
qed

lemma handleFinality_no_advance:
  assumes "handleFinality c s a k q tx = (s', None, False)" and "nonce (getAccount s a) \<le> k"
  shows "s' = s"
  using handleFinality_advance[OF assms(1)] assms(2) by auto

lemma handleFinality_nonce_kept:
  assumes "handleFinality c s a k q tx = (s', e, False)"
  shows "nonce (getAccount s' a) = nonce (getAccount s a)"
  using handleFinality_advance[OF assms] by auto

lemma quiescent_idle:
  assumes "handleFinality c s a (nonce (getAccount s a))
             (fst (getMaxQuorumCert (getVotes s a (nonce (getAccount s a)))))
             (snd (getMaxQuorumCert (getVotes s a (nonce (getAccount s a))))) = (s, None, False)"
    and "\<not> (int (fst (getMaxQuorumCert (getVotes s a (nonce (getAccount s a))))) < NOTARISATION_QUORUM c
            \<and> FINALITY_QUORUM c \<le> int (length (getVotes s a (nonce (getAccount s a))))
            \<and> \<not> hasBot c (getVotes s a (nonce (getAccount s a))))"
    and "\<not> (\<not> int (fst (getMaxQuorumCert (getVotes s a (nonce (getAccount s a))))) < NOTARISATION_QUORUM c
            \<and> pending (getAccount s a))"
  shows "quiescent c s a"
  using assms by (auto simp: quiescent_def finalityThenReentry_def)

lemma processCertificate2_quiescent:
  "processCertificate2 fuel c s a k = (s', out, None) \<Longrightarrow> k = nonce (getAccount s a)
     \<Longrightarrow> quiescent c s' a"
proof (induction fuel arbitrary: s a k s' out rule: less_induct)
  case (less fuel)
  from less.prems(1) obtain f where fuel: "fuel = Suc f" by (cases fuel) auto
  let ?votes = "getVotes s a k"
  let ?q = "fst (getMaxQuorumCert ?votes)"
  let ?tx = "snd (getMaxQuorumCert ?votes)"
  let ?bot = "signVote c a k None"
  let ?sp = "setAccount s a ((getAccount s a)\<lparr>pending := True\<rparr>)"
  note k = less.prems(2)
  note pc = less.prems(1)[unfolded fuel]
  show ?case
  proof (cases "int ?q < NOTARISATION_QUORUM c")
    case low: True
    then have nofin: "\<not> FINALITY_QUORUM c \<le> int ?q" using quorum_le[of c] by simp
    show ?thesis
    proof (cases "FINALITY_QUORUM c \<le> int (length ?votes) \<and> \<not> hasBot c ?votes")
      case False
      with pc k low nofin have "s' = s" by (auto simp: finalityThenReentry_below)
      moreover have "quiescent c s a"
        using False low nofin k by (intro quiescent_idle) (auto simp: handleFinality_below)
      ultimately show ?thesis by simp
    next
      case cast: True
      obtain s2 out2 e2 where ov: "onVote2 f c ?sp ?bot = (s2, out2, e2)" by (metis prod_cases3)
      from pc k low cast ov nofin have e2: "e2 = None" and s': "s' = s2"
        by (cases e2; simp add: finalityThenReentry_below)+
      from ov e2 obtain f' where f: "f = Suc f'" by (cases f) auto
      from cast have nd: "\<not> isDuplicate (voteStore ?sp (account ?bot) (vote_nonce ?bot)) ?bot"
        by (simp add: isDuplicate_def hasBot_def signVote_def getVotes_def)
      from ov e2 f nd have pc': "processCertificate2 f' c (pushVote ?sp ?bot) a k = (s2, out2, None)"
        by (auto simp: signVote_def split: if_splits)
      have "k = nonce (getAccount (pushVote ?sp ?bot) a)"
        using k by (simp add: getAccount_def accounts_setAccount)
      with less.IH[of f', OF _ pc'] fuel f s' show ?thesis by simp
    qed
  next
    case high: False
    let ?s1 = "if pending (getAccount s a)
               then setAccount s a ((getAccount s a)\<lparr>nonce := k + 1, pending := False\<rparr>) else s"
    obtain s3 e3 inc2 where hf: "handleFinality c ?s1 a k ?q ?tx = (s3, e3, inc2)"
      by (metis prod_cases3)
    from pc k high hf have e3: "e3 = None"
      by (cases e3) (auto simp: finalityThenReentry_def split: if_splits)
    show ?thesis
    proof (cases "pending (getAccount s a) \<or> inc2")
      case True
      obtain s4 out4 e4 where again: "processCertificate2 f c s3 a (nonce (getAccount s3 a)) = (s4, out4, e4)"
        by (metis prod_cases3)
      from pc k high hf e3 True again have "e4 = None" "s' = s4"
        by (auto simp: finalityThenReentry_def split: if_splits)
      with less.IH[of f, OF _ again[unfolded \<open>e4 = None\<close>]] fuel show ?thesis by simp
    next
      case False
      with pc k high hf e3 have s': "s' = s3" by (auto simp: finalityThenReentry_def)
      from False hf e3 k have "s3 = s"
        by (intro handleFinality_no_advance[of c s a k ?q ?tx]) simp_all
      moreover have "quiescent c s a"
        using False high hf e3 k \<open>s3 = s\<close> by (intro quiescent_idle) auto
      ultimately show ?thesis using s' by simp
    qed
  qed
qed

text \<open>
  Re-entry in the second copy of the core: whenever onVote returns normally and has
  advanced the nonce of the vote's account, the processor has been re-run up to the new
  current nonce, so that nothing stored there is left unprocessed.
\<close>

lemma onVote2_reentry:
  assumes ov: "onVote2 fuel c s v = (s', out, None)"
    and adv: "nonce (getAccount s' (account v)) \<noteq> nonce (getAccount s (account v))"
  shows "quiescent c s' (account v)"
proof -
  let ?a = "account v" and ?k = "vote_nonce v" and ?p = "pushVote s v"
  from ov obtain f where fuel: "fuel = Suc f" by (cases fuel) auto
  from ov adv fuel have pc: "processCertificate2 f c ?p ?a ?k = (s', out, None)"
    by (auto split: if_splits)
  then obtain f' where f: "f = Suc f'" by (cases f) auto
  show ?thesis
  proof (cases "?k = nonce (getAccount ?p ?a)")
    case True
    from processCertificate2_quiescent[OF pc True] show ?thesis .
  next
    case False
    let ?q = "fst (getMaxQuorumCert (getVotes ?p ?a ?k))"
    let ?tx = "snd (getMaxQuorumCert (getVotes ?p ?a ?k))"
    obtain s3 e3 inc2 where hf: "handleFinality c ?p ?a ?k ?q ?tx = (s3, e3, inc2)"
      by (metis prod_cases3)
    from pc f False hf have e3: "e3 = None"
      by (cases e3) (auto simp: finalityThenReentry_def split: if_splits)
    show ?thesis
    proof (cases inc2)
      case True
      obtain s4 out4 e4 where again: "processCertificate2 f' c s3 ?a (nonce (getAccount s3 ?a)) = (s4, out4, e4)"
        by (metis prod_cases3)
      from pc f False hf e3 True again have "e4 = None" "s' = s4"
        by (auto simp: finalityThenReentry_def split: if_splits)
      with processCertificate2_quiescent[OF again[unfolded \<open>e4 = None\<close>]] show ?thesis by simp
    next
      case n: False
      with pc f False hf e3 have "s' = s3" by (auto simp: finalityThenReentry_def)
      moreover from n hf have "handleFinality c ?p ?a ?k ?q ?tx = (s3, e3, False)" by simp
      then have "nonce (getAccount s3 ?a) = nonce (getAccount ?p ?a)"
        by (rule handleFinality_nonce_kept)
      ultimately show ?thesis using adv by (simp add: getAccount_def)
    qed
  qed
qed

end
